theory Spec2Isabelle
  imports Complex_Main "HOL-Library.Multiset"
begin

section \<open>The clamped simulated-annealing cell of the notebook\<close>

text \<open>
  The model follows the code cell of
  \<^verbatim>\<open>12_Training Probabilistic Graphical Models.ipynb\<close> that clamps spins and runs the
  annealing sweeps. The cell is straight-line code over the variables of the notebook;
  here it is the function \<open>sample\<close> of the biases \<^verbatim>\<open>h\<close>, the couplings \<^verbatim>\<open>J\<close>, the
  clamped spins, the schedule and the generator.

  Python floats are modelled by \<^typ>\<open>real\<close>, so sums do not round and do not depend on
  the order of the summands; Python integers by \<^typ>\<open>int\<close>. A dictionary that the code
  iterates (\<^verbatim>\<open>h\<close>, \<^verbatim>\<open>J\<close>) is an association list in insertion order, read with
  \<open>map_of\<close>; a dictionary that is only indexed is a map. A Python set is a duplicate-free
  list whose order stands for the iteration order of the set. A failed dictionary lookup
  is the error value \<open>KeyError\<close>, and every later step is skipped, as after the exception.
\<close>

subsection \<open>Data\<close>

type_synonym node = int
type_synonym spins = "node \<rightharpoonup> int"
type_synonym biases = "(node \<times> real) list"
type_synonym couplings = "((node \<times> node) \<times> real) list"
type_synonym adjacency = "node \<rightharpoonup> node list"

datatype error = KeyError node

fun and_then :: "error + 'a \<Rightarrow> ('a \<Rightarrow> error + 'b) \<Rightarrow> error + 'b" where
  "and_then (Inl e) f = Inl e"
| "and_then (Inr x) f = f x"

definition lookup :: "(node \<rightharpoonup> 'v) \<Rightarrow> node \<Rightarrow> error + 'v" where
  "lookup m k = (case m k of None \<Rightarrow> Inl (KeyError k) | Some v \<Rightarrow> Inr v)"

text \<open>
  The global generator \<^verbatim>\<open>np.random\<close>: a state of type \<open>'g\<close> with the two draws the cell
  makes. \<open>choice\<close> is \<^verbatim>\<open>np.random.choice((-1, 1))\<close>, returning whether the second option
  was picked; \<open>uniform\<close> is \<^verbatim>\<open>np.random.uniform(0, 1)\<close>.
\<close>

record 'g random_source =
  choice :: "'g \<Rightarrow> bool \<times> 'g"
  uniform :: "'g \<Rightarrow> real \<times> 'g"

text \<open>
  \<^verbatim>\<open>np.log\<close> returns \<^verbatim>\<open>-inf\<close> at 0 and \<^verbatim>\<open>nan\<close> below 0; \<^verbatim>\<open>-inf\<close> is less than every
  finite number and \<^verbatim>\<open>nan\<close> is less than none.
\<close>

datatype logp = NegInf | NaN | Finite real

definition np_log :: "real \<Rightarrow> logp" where
  "np_log u = (if u < 0 then NaN else if u = 0 then NegInf else Finite (ln u))"

fun logp_less :: "logp \<Rightarrow> real \<Rightarrow> bool" where
  "logp_less NegInf r = True"
| "logp_less NaN r = False"
| "logp_less (Finite x) r = (x < r)"

subsection \<open>The cooling schedule of the notebook\<close>

definition num_sweeps :: nat where
  "num_sweeps = 1000"

definition \<beta>s :: "real list" where
  "\<beta>s = map (\<lambda>i. 1.0 - 1.0 * real i / (real num_sweeps - 1)) [0..<num_sweeps]"

definition clamped_spins :: "node \<rightharpoonup> int" where
  "clamped_spins = [0 \<mapsto> - 1]"

subsection \<open>The adjacency dictionary\<close>

definition empty_adj :: "biases \<Rightarrow> adjacency" where
  "empty_adj h = map_of (map (\<lambda>n. (n, [])) (map fst h))"

fun add_edges :: "(node \<times> node) list \<Rightarrow> adjacency \<Rightarrow> error + adjacency" where
  "add_edges [] adj = Inr adj"
| "add_edges ((n0, n1) # es) adj =
     and_then (lookup adj n0) (\<lambda>s0.
       let adj1 = adj(n0 \<mapsto> List.insert n1 s0) in
       and_then (lookup adj1 n1) (\<lambda>s1.
         add_edges es (adj1(n1 \<mapsto> List.insert n0 s1))))"

subsection \<open>Initial spins\<close>

fun init_spins ::
  "'g random_source \<Rightarrow> (node \<rightharpoonup> int) \<Rightarrow> node list \<Rightarrow> spins \<Rightarrow> 'g \<Rightarrow> spins \<times> 'g" where
  "init_spins R clamped [] sp g = (sp, g)"
| "init_spins R clamped (v # vs) sp g =
     (case clamped v of
        None \<Rightarrow>
          (let (b, g') = choice R g
           in init_spins R clamped vs (sp(v \<mapsto> (if b then 1 else - 1))) g')
      | Some c \<Rightarrow> init_spins R clamped vs (sp(v \<mapsto> c)) g)"

subsection \<open>One sweep\<close>

fun energy_diff_h_loop ::
  "biases \<Rightarrow> node list \<Rightarrow> spins \<Rightarrow> (node \<rightharpoonup> real) \<Rightarrow> error + (node \<rightharpoonup> real)" where
  "energy_diff_h_loop h [] sp m = Inr m"
| "energy_diff_h_loop h (v # vs) sp m =
     and_then (lookup sp v) (\<lambda>s.
       and_then (lookup (map_of h) v) (\<lambda>hv.
         energy_diff_h_loop h vs sp (m(v \<mapsto> - 2 * real_of_int s * hv))))"

definition energy_diff_h :: "biases \<Rightarrow> spins \<Rightarrow> error + (node \<rightharpoonup> real)" where
  "energy_diff_h h sp = energy_diff_h_loop h (map fst h) sp Map.empty"

text \<open>One guarded addition \<^verbatim>\<open>if k in J: ediff += spins[v0] * spins[v1] * J[k]\<close>.\<close>

definition add_term ::
  "couplings \<Rightarrow> spins \<Rightarrow> node \<Rightarrow> node \<Rightarrow> node \<times> node \<Rightarrow> real \<Rightarrow> error + real" where
  "add_term J sp v0 v1 k ediff =
     (case map_of J k of
        None \<Rightarrow> Inr ediff
      | Some w \<Rightarrow>
          and_then (lookup sp v0) (\<lambda>s0.
            and_then (lookup sp v1) (\<lambda>s1.
              Inr (ediff + real_of_int (s0 * s1) * w))))"

fun ediff_loop ::
  "couplings \<Rightarrow> spins \<Rightarrow> node \<Rightarrow> node list \<Rightarrow> real \<Rightarrow> error + real" where
  "ediff_loop J sp v0 [] ediff = Inr ediff"
| "ediff_loop J sp v0 (v1 # vs) ediff =
     and_then (add_term J sp v0 v1 (v0, v1) ediff) (\<lambda>e1.
       and_then (add_term J sp v0 v1 (v1, v0) e1) (\<lambda>e2.
         ediff_loop J sp v0 vs e2))"

fun energy_diff_J_loop ::
  "couplings \<Rightarrow> adjacency \<Rightarrow> spins \<Rightarrow> node list \<Rightarrow> (node \<rightharpoonup> real)
     \<Rightarrow> error + (node \<rightharpoonup> real)" where
  "energy_diff_J_loop J adj sp [] m = Inr m"
| "energy_diff_J_loop J adj sp (v0 # vs) m =
     and_then (lookup adj v0) (\<lambda>ns.
       and_then (ediff_loop J sp v0 ns 0) (\<lambda>ediff.
         energy_diff_J_loop J adj sp vs (m(v0 \<mapsto> - 2 * ediff))))"

text \<open>The acceptance test \<^verbatim>\<open>logp < -1. * \<beta> * (energy_diff_h[v] + energy_diff_J[v])\<close>.\<close>

definition accepts :: "real \<Rightarrow> real \<Rightarrow> real \<Rightarrow> bool" where
  "accepts \<beta> energy_diff u = logp_less (np_log u) (- 1 * \<beta> * energy_diff)"

fun metropolis_loop ::
  "'g random_source \<Rightarrow> real \<Rightarrow> (node \<rightharpoonup> real) \<Rightarrow> (node \<rightharpoonup> real) \<Rightarrow> node list
     \<Rightarrow> spins \<times> 'g \<Rightarrow> error + spins \<times> 'g" where
  "metropolis_loop R \<beta> edh edJ [] st = Inr st"
| "metropolis_loop R \<beta> edh edJ (v # vs) (sp, g) =
     (let (u, g') = uniform R g in
      and_then (lookup edh v) (\<lambda>dh.
        and_then (lookup edJ v) (\<lambda>dJ.
          if accepts \<beta> (dh + dJ) u
          then and_then (lookup sp v) (\<lambda>s.
                 metropolis_loop R \<beta> edh edJ vs (sp(v \<mapsto> s * - 1), g'))
          else metropolis_loop R \<beta> edh edJ vs (sp, g'))))"

definition update_color ::
  "'g random_source \<Rightarrow> (node \<rightharpoonup> int) \<Rightarrow> couplings \<Rightarrow> adjacency \<Rightarrow> real
     \<Rightarrow> (node \<rightharpoonup> real) \<Rightarrow> node list \<Rightarrow> spins \<times> 'g \<Rightarrow> error + spins \<times> 'g" where
  "update_color R clamped J adj \<beta> edh nodes st =
     and_then (energy_diff_J_loop J adj (fst st) nodes Map.empty) (\<lambda>edJ.
       metropolis_loop R \<beta> edh edJ (filter (\<lambda>x. x \<notin> dom clamped) nodes) st)"

fun colors_loop ::
  "'g random_source \<Rightarrow> (node \<rightharpoonup> int) \<Rightarrow> couplings \<Rightarrow> adjacency \<Rightarrow> real
     \<Rightarrow> (node \<rightharpoonup> real) \<Rightarrow> node list list \<Rightarrow> spins \<times> 'g \<Rightarrow> error + spins \<times> 'g" where
  "colors_loop R clamped J adj \<beta> edh [] st = Inr st"
| "colors_loop R clamped J adj \<beta> edh (nodes # cs) st =
     and_then (update_color R clamped J adj \<beta> edh nodes st)
       (colors_loop R clamped J adj \<beta> edh cs)"

definition sweep ::
  "'g random_source \<Rightarrow> (node \<rightharpoonup> int) \<Rightarrow> biases \<Rightarrow> couplings \<Rightarrow> adjacency
     \<Rightarrow> node list list \<Rightarrow> real \<Rightarrow> spins \<times> 'g \<Rightarrow> error + spins \<times> 'g" where
  "sweep R clamped h J adj colors \<beta> st =
     and_then (energy_diff_h h (fst st)) (\<lambda>edh.
       colors_loop R clamped J adj \<beta> edh colors st)"

subsection \<open>The whole cell\<close>

fun sweeps ::
  "'g random_source \<Rightarrow> (node \<rightharpoonup> int) \<Rightarrow> biases \<Rightarrow> couplings \<Rightarrow> adjacency
     \<Rightarrow> node list list \<Rightarrow> real list \<Rightarrow> spins \<times> 'g \<Rightarrow> error + spins \<times> 'g" where
  "sweeps R clamped h J adj colors [] st = Inr st"
| "sweeps R clamped h J adj colors (\<beta> # rest) st =
     and_then (sweep R clamped h J adj colors \<beta> st)
       (sweeps R clamped h J adj colors rest)"

text \<open>
  \<open>greedy_coloring\<close> is the routine imported from \<^verbatim>\<open>dimod\<close>; it is a parameter. It
  returns the colour classes in the order the cell iterates them.
\<close>

definition sample ::
  "'g random_source \<Rightarrow> (adjacency \<Rightarrow> node list list) \<Rightarrow> biases \<Rightarrow> couplings
     \<Rightarrow> (node \<rightharpoonup> int) \<Rightarrow> real list \<Rightarrow> 'g \<Rightarrow> error + spins" where
  "sample R greedy_coloring h J clamped schedule g =
     and_then (add_edges (map fst J) (empty_adj h)) (\<lambda>adj.
       let colors = greedy_coloring adj;
           st = init_spins R clamped (map fst h) Map.empty g
       in and_then (sweeps R clamped h J adj colors schedule st) (\<lambda>st'. Inr (fst st')))"

section \<open>Notions of the specification\<close>

subsection \<open>The schedule, entry by entry\<close>

text \<open>
  The state after the first \<open>k\<close> sweeps, where sweep number \<open>k\<close> (counted from 0) uses
  entry \<open>k\<close> of the schedule.
\<close>

fun after_sweeps ::
  "'g random_source \<Rightarrow> (node \<rightharpoonup> int) \<Rightarrow> biases \<Rightarrow> couplings \<Rightarrow> adjacency
     \<Rightarrow> node list list \<Rightarrow> real list \<Rightarrow> nat \<Rightarrow> spins \<times> 'g \<Rightarrow> error + spins \<times> 'g" where
  "after_sweeps R clamped h J adj colors schedule 0 st = Inr st"
| "after_sweeps R clamped h J adj colors schedule (Suc k) st =
     and_then (after_sweeps R clamped h J adj colors schedule k st)
       (sweep R clamped h J adj colors (schedule ! k))"

subsection \<open>Well-formed inputs and states\<close>

text \<open>Every spin is \<open>-1\<close> or \<open>1\<close>.\<close>

definition valid_spins :: "spins \<Rightarrow> bool" where
  "valid_spins sp \<longleftrightarrow> (\<forall>v s. sp v = Some s \<longrightarrow> s = - 1 \<or> s = 1)"

text \<open>Every clamped node that has a spin has its clamped value.\<close>

definition keeps_clamped :: "(node \<rightharpoonup> int) \<Rightarrow> spins \<Rightarrow> bool" where
  "keeps_clamped clamped sp \<longleftrightarrow> (\<forall>v c. v \<in> dom sp \<and> clamped v = Some c \<longrightarrow> sp v = Some c)"

text \<open>Every neighbour set is duplicate-free and holds keys of the adjacency only.\<close>

definition closed_adj :: "adjacency \<Rightarrow> bool" where
  "closed_adj adj \<longleftrightarrow> (\<forall>v ns. adj v = Some ns \<longrightarrow> set ns \<subseteq> dom adj \<and> distinct ns)"

text \<open>Both nodes of every coupling are keys of \<open>h\<close>.\<close>

definition couplings_known :: "biases \<Rightarrow> couplings \<Rightarrow> bool" where
  "couplings_known h J \<longleftrightarrow>
     (\<forall>k \<in> set (map fst J). fst k \<in> fst ` set h \<and> snd k \<in> fst ` set h)"

text \<open>
  What the cell needs of the colouring routine: on an adjacency with the keys \<open>K\<close> it
  returns classes of nodes of \<open>K\<close>.
\<close>

definition colours_within :: "(adjacency \<Rightarrow> node list list) \<Rightarrow> node set \<Rightarrow> bool" where
  "colours_within greedy_coloring K \<longleftrightarrow>
     (\<forall>adj. dom adj = K \<longrightarrow> (\<forall>c \<in> set (greedy_coloring adj). set c \<subseteq> K))"

text \<open>The colouring invariant for one class: no two different nodes of it are adjacent.\<close>

definition independent :: "adjacency \<Rightarrow> node list \<Rightarrow> bool" where
  "independent adj nodes \<longleftrightarrow>
     (\<forall>v \<in> set nodes. \<forall>w \<in> set nodes. v \<noteq> w \<longrightarrow> (\<forall>ns. adj v = Some ns \<longrightarrow> w \<notin> set ns))"

subsection \<open>The energy difference in closed form\<close>

text \<open>
  The coupling between two nodes: the entries of \<open>J\<close> under both orders of the pair
  added up, an absent entry counting 0. The spin of a node as a real number.
\<close>

definition coupling :: "couplings \<Rightarrow> node \<Rightarrow> node \<Rightarrow> real" where
  "coupling J v u =
     (case map_of J (v, u) of None \<Rightarrow> 0 | Some w \<Rightarrow> w)
     + (case map_of J (u, v) of None \<Rightarrow> 0 | Some w \<Rightarrow> w)"

definition spin_of :: "spins \<Rightarrow> node \<Rightarrow> real" where
  "spin_of sp v = (case sp v of None \<Rightarrow> 0 | Some s \<Rightarrow> real_of_int s)"

text \<open>The first \<open>n\<close> uniform draws of a generator from a state.\<close>

fun uniform_draws :: "'g random_source \<Rightarrow> 'g \<Rightarrow> nat \<Rightarrow> real list" where
  "uniform_draws R g 0 = []"
| "uniform_draws R g (Suc n) = fst (uniform R g) # uniform_draws R (snd (uniform R g)) n"

text \<open>
  The assignment after all nodes of \<open>ps\<close>, each paired with its draw, have been decided
  at once from the recorded energy differences.
\<close>

definition batch_result ::
  "real \<Rightarrow> (node \<rightharpoonup> real) \<Rightarrow> (node \<rightharpoonup> real) \<Rightarrow> (node \<times> real) list \<Rightarrow> spins \<Rightarrow> spins" where
  "batch_result \<beta> edh edJ ps sp =
     (\<lambda>w. case map_of ps w of
            None \<Rightarrow> sp w
          | Some u \<Rightarrow>
              (case edh w of
                 None \<Rightarrow> sp w
               | Some dh \<Rightarrow>
                   (case edJ w of
                      None \<Rightarrow> sp w
                    | Some dJ \<Rightarrow>
                        if accepts \<beta> (dh + dJ) u then map_option (\<lambda>s. s * - 1) (sp w)
                        else sp w)))"

subsection \<open>Strictly sequential updates\<close>

text \<open>
  The update of a single node as the specification describes it: the energy difference of
  flipping \<open>v\<close> is computed from the current spins, bias part and coupling part, and the
  flip is accepted by the test of the cell with the draw \<open>u\<close>. \<open>sequential_updates\<close>
  applies it to a list of nodes with their draws, one after another.
\<close>

definition node_update ::
  "biases \<Rightarrow> couplings \<Rightarrow> adjacency \<Rightarrow> real \<Rightarrow> node \<Rightarrow> real \<Rightarrow> spins \<Rightarrow> error + spins" where
  "node_update h J adj \<beta> v u sp =
     and_then (lookup sp v) (\<lambda>s.
       and_then (lookup (map_of h) v) (\<lambda>hv.
         and_then (lookup adj v) (\<lambda>ns.
           and_then (ediff_loop J sp v ns 0) (\<lambda>ediff.
             if accepts \<beta> (- 2 * real_of_int s * hv + - 2 * ediff) u
             then Inr (sp(v \<mapsto> s * - 1))
             else Inr sp))))"

fun sequential_updates ::
  "biases \<Rightarrow> couplings \<Rightarrow> adjacency \<Rightarrow> real \<Rightarrow> (node \<times> real) list \<Rightarrow> spins
     \<Rightarrow> error + spins" where
  "sequential_updates h J adj \<beta> [] sp = Inr sp"
| "sequential_updates h J adj \<beta> ((v, u) # ps) sp =
     and_then (node_update h J adj \<beta> v u sp) (sequential_updates h J adj \<beta> ps)"

subsection \<open>Generators that return the same draws\<close>

text \<open>
  Two generators return the same draws from the states \<open>a\<close> and \<open>b\<close> when a relation
  holds of \<open>a\<close> and \<open>b\<close> that every draw preserves while both generators return the same
  value.
\<close>

definition same_draws ::
  "'a random_source \<Rightarrow> 'b random_source \<Rightarrow> ('a \<Rightarrow> 'b \<Rightarrow> bool) \<Rightarrow> bool" where
  "same_draws R1 R2 Rel \<longleftrightarrow>
     (\<forall>a b. Rel a b \<longrightarrow>
        fst (choice R1 a) = fst (choice R2 b) \<and> Rel (snd (choice R1 a)) (snd (choice R2 b))
        \<and> fst (uniform R1 a) = fst (uniform R2 b)
        \<and> Rel (snd (uniform R1 a)) (snd (uniform R2 b)))"

section \<open>A concrete model and concrete generators\<close>

text \<open>
  A model of the shape the notebook builds (three nodes, couplings \<open>(0, 1)\<close> and
  \<open>(1, 2)\<close>) with fixed numbers in place of the random ones, the two classes a colouring
  of it has, and a generator whose draws are listed: draw number \<open>n\<close> (from 0) picks the
  second option when \<open>n\<close> is even, or is the real \<open>exp (- (n + 1))\<close>, whose logarithm is
  \<open>- (n + 1)\<close>.
\<close>

definition counter_source :: "nat random_source" where
  "counter_source =
     \<lparr>choice = (\<lambda>n. (even n, Suc n)), uniform = (\<lambda>n. (exp (- real (Suc n)), Suc n))\<rparr>"

definition example_h :: biases where
  "example_h = [(0, 1 / 2), (1, - 1), (2, - 3 / 2)]"

definition example_J :: couplings where
  "example_J = [((0, 1), 1 / 2), ((1, 2), - 1 / 2)]"

definition example_coloring :: "adjacency \<Rightarrow> node list list" where
  "example_coloring adj = [[0, 2], [1]]"

definition example_adj :: adjacency where
  "example_adj = [0 \<mapsto> [1], 1 \<mapsto> [2, 0], 2 \<mapsto> [1]]"

definition example_spins :: spins where
  "example_spins = [0 \<mapsto> - 1, 1 \<mapsto> 1, 2 \<mapsto> - 1]"

definition example_edh :: "node \<rightharpoonup> real" where
  "example_edh = [0 \<mapsto> 1, 1 \<mapsto> 2, 2 \<mapsto> - 3]"

text \<open>Couplings that hold the pair of nodes 0 and 1 in both orders.\<close>

definition example_J2 :: couplings where
  "example_J2 = [((0, 1), 1 / 2), ((1, 0), 1 / 4)]"

definition example_adj2 :: adjacency where
  "example_adj2 = [2 \<mapsto> [], 1 \<mapsto> [0], 0 \<mapsto> [1]]"

text \<open>
  A second generator, with integer states, that returns from state \<open>n + 10\<close> what
  \<open>counter_source\<close> returns from state \<open>n\<close>.
\<close>

definition offset_source :: "int random_source" where
  "offset_source =
     \<lparr>choice = (\<lambda>z. (even z, z + 1)), uniform = (\<lambda>z. (exp (- real_of_int (z - 9)), z + 1))\<rparr>"

definition offset_rel :: "nat \<Rightarrow> int \<Rightarrow> bool" where
  "offset_rel n z \<longleftrightarrow> z = int n + 10"

section \<open>Auxiliary facts\<close>

lemmas run_defs = sample_def counter_source_def example_h_def example_J_def example_coloring_def
  clamped_spins_def empty_adj_def lookup_def sweep_def update_color_def energy_diff_h_def
  add_term_def accepts_def np_log_def

subsection \<open>Steps that may fail\<close>

lemma and_then_Inr_iff: "and_then m f = Inr y \<longleftrightarrow> (\<exists>x. m = Inr x \<and> f x = Inr y)"
  by (cases m) auto

lemma lookup_Inr_iff: "lookup m k = Inr v \<longleftrightarrow> m k = Some v"
  by (simp add: lookup_def split: option.splits)

subsection \<open>Initialisation\<close>

lemma init_spins_dom: "dom (fst (init_spins R clamped vs sp g)) = dom sp \<union> set vs"
  by (induction vs arbitrary: sp g) (auto split: option.splits prod.splits)

lemma init_spins_step_free:
  "clamped v = None \<Longrightarrow> choice R g = (b, g') \<Longrightarrow>
     init_spins R clamped (v # vs) sp g
       = init_spins R clamped vs (sp(v \<mapsto> (if b then 1 else - 1))) g'"
  by simp

lemma init_spins_step_clamped:
  "clamped v = Some c \<Longrightarrow>
     init_spins R clamped (v # vs) sp g = init_spins R clamped vs (sp(v \<mapsto> c)) g"
  by simp

lemma init_spins_clamped:
  "keeps_clamped clamped sp \<Longrightarrow> keeps_clamped clamped (fst (init_spins R clamped vs sp g))"
proof (induction vs arbitrary: sp g)
  case Nil
  then show ?case by simp
next
  case (Cons v vs)
  show ?case
  proof (cases "clamped v")
    case None
    obtain b g' where c: "choice R g = (b, g')" by (cases "choice R g")
    have "keeps_clamped clamped (sp(v \<mapsto> (if b then 1 else - 1)))"
      using Cons.prems None by (auto simp: keeps_clamped_def)
    then show ?thesis
      unfolding init_spins_step_free[of clamped v R g b g', OF None c] by (rule Cons.IH)
  next
    case (Some c)
    have "keeps_clamped clamped (sp(v \<mapsto> c))"
      using Cons.prems Some by (auto simp: keeps_clamped_def)
    then show ?thesis
      unfolding init_spins_step_clamped[of clamped v c, OF Some] by (rule Cons.IH)
  qed
qed

lemma init_spins_valid:
  "valid_spins sp \<Longrightarrow> \<forall>v c. clamped v = Some c \<longrightarrow> c = - 1 \<or> c = 1
     \<Longrightarrow> valid_spins (fst (init_spins R clamped vs sp g))"
proof (induction vs arbitrary: sp g)
  case Nil
  then show ?case by simp
next
  case (Cons v vs)
  show ?case
  proof (cases "clamped v")
    case None
    obtain b g' where c: "choice R g = (b, g')" by (cases "choice R g")
    have "valid_spins (sp(v \<mapsto> (if b then 1 else - 1)))"
      using Cons.prems(1) by (auto simp: valid_spins_def)
    then show ?thesis
      unfolding init_spins_step_free[of clamped v R g b g', OF None c] using Cons.prems(2) by (rule Cons.IH)
  next
    case (Some c)
    have "valid_spins (sp(v \<mapsto> c))"
      using Cons.prems Some by (auto simp: valid_spins_def)
    then show ?thesis
      unfolding init_spins_step_clamped[of clamped v c, OF Some] using Cons.prems(2) by (rule Cons.IH)
  qed
qed

subsection \<open>What an update leaves alone\<close>

lemma metropolis_loop_Cons_Inr:
  "metropolis_loop R \<beta> edh edJ (v # vs) (sp, g) = Inr st' \<longleftrightarrow>
     (\<exists>dh dJ. edh v = Some dh \<and> edJ v = Some dJ \<and>
        (if accepts \<beta> (dh + dJ) (fst (uniform R g))
         then (\<exists>s. sp v = Some s \<and>
                 metropolis_loop R \<beta> edh edJ vs (sp(v \<mapsto> s * - 1), snd (uniform R g)) = Inr st')
         else metropolis_loop R \<beta> edh edJ vs (sp, snd (uniform R g)) = Inr st'))"
  by (simp add: and_then_Inr_iff lookup_Inr_iff split: prod.splits)

lemma valid_spins_flip:
  "valid_spins sp \<Longrightarrow> sp v = Some s \<Longrightarrow> valid_spins (sp(v \<mapsto> s * - 1))"
  by (auto simp: valid_spins_def)

lemma metropolis_loop_frame:
  "metropolis_loop R \<beta> edh edJ vs (sp, g) = Inr (sp', g') \<Longrightarrow>
     dom sp' = dom sp \<and> (\<forall>v. v \<notin> set vs \<longrightarrow> sp' v = sp v)
     \<and> (valid_spins sp \<longrightarrow> valid_spins sp')"
proof (induction vs arbitrary: sp g)
  case Nil
  then show ?case by simp
next
  case (Cons v vs)
  from Cons.prems obtain dh dJ where
    r: "if accepts \<beta> (dh + dJ) (fst (uniform R g))
         then (\<exists>s. sp v = Some s \<and>
                 metropolis_loop R \<beta> edh edJ vs (sp(v \<mapsto> s * - 1), snd (uniform R g)) = Inr (sp', g'))
         else metropolis_loop R \<beta> edh edJ vs (sp, snd (uniform R g)) = Inr (sp', g')"
    unfolding metropolis_loop_Cons_Inr by blast
  show ?case
  proof (cases "accepts \<beta> (dh + dJ) (fst (uniform R g))")
    case True
    with r obtain s where s: "sp v = Some s"
      and m: "metropolis_loop R \<beta> edh edJ vs (sp(v \<mapsto> s * - 1), snd (uniform R g)) = Inr (sp', g')"
      by auto
    from Cons.IH[OF m]
    have a: "dom sp' = dom (sp(v \<mapsto> s * - 1))"
      and b: "\<forall>w. w \<notin> set vs \<longrightarrow> sp' w = (sp(v \<mapsto> s * - 1)) w"
      and c: "valid_spins (sp(v \<mapsto> s * - 1)) \<longrightarrow> valid_spins sp'"
      by blast+
    have "v \<in> dom sp" using s by blast
    with a have "dom sp' = dom sp" by auto
    moreover from b have "\<forall>w. w \<notin> set (v # vs) \<longrightarrow> sp' w = sp w" by simp
    moreover from c valid_spins_flip[of sp v s] s have "valid_spins sp \<longrightarrow> valid_spins sp'"
      by blast
    ultimately show ?thesis by blast
  next
    case False
    with r have "metropolis_loop R \<beta> edh edJ vs (sp, snd (uniform R g)) = Inr (sp', g')"
      by simp
    from Cons.IH[OF this] show ?thesis by simp
  qed
qed

lemma update_color_frame:
  assumes "update_color R clamped J adj \<beta> edh nodes (sp, g) = Inr (sp', g')"
  shows "dom sp' = dom sp" and "\<And>v. v \<in> dom clamped \<or> v \<notin> set nodes \<Longrightarrow> sp' v = sp v"
    and "valid_spins sp \<Longrightarrow> valid_spins sp'"
proof -
  from assms obtain edJ where
    "metropolis_loop R \<beta> edh edJ (filter (\<lambda>x. x \<notin> dom clamped) nodes) (sp, g) = Inr (sp', g')"
    by (auto simp: update_color_def and_then_Inr_iff)
  from metropolis_loop_frame[OF this]
  show "dom sp' = dom sp" and "\<And>v. v \<in> dom clamped \<or> v \<notin> set nodes \<Longrightarrow> sp' v = sp v"
    and "valid_spins sp \<Longrightarrow> valid_spins sp'"
    by auto
qed

lemma colors_loop_frame:
  "colors_loop R clamped J adj \<beta> edh cs (sp, g) = Inr (sp', g') \<Longrightarrow>
     dom sp' = dom sp \<and> (\<forall>v. v \<in> dom clamped \<or> v \<notin> set (concat cs) \<longrightarrow> sp' v = sp v)
     \<and> (valid_spins sp \<longrightarrow> valid_spins sp')"
proof (induction cs arbitrary: sp g)
  case Nil
  then show ?case by simp
next
  case (Cons nodes cs)
  from Cons.prems obtain sp1 g1 where
    u: "update_color R clamped J adj \<beta> edh nodes (sp, g) = Inr (sp1, g1)"
    and c: "colors_loop R clamped J adj \<beta> edh cs (sp1, g1) = Inr (sp', g')"
    by (auto simp: and_then_Inr_iff)
  from update_color_frame[OF u] Cons.IH[OF c] show ?case by auto
qed

lemma sweep_frame:
  assumes "sweep R clamped h J adj colors \<beta> (sp, g) = Inr (sp', g')"
  shows "dom sp' = dom sp \<and> (\<forall>v. v \<in> dom clamped \<longrightarrow> sp' v = sp v)
     \<and> (valid_spins sp \<longrightarrow> valid_spins sp')"
proof -
  from assms obtain edh where
    "colors_loop R clamped J adj \<beta> edh colors (sp, g) = Inr (sp', g')"
    by (auto simp: sweep_def and_then_Inr_iff)
  from colors_loop_frame[OF this] show ?thesis by auto
qed

lemma sweeps_frame:
  "sweeps R clamped h J adj colors bs (sp, g) = Inr (sp', g') \<Longrightarrow>
     dom sp' = dom sp \<and> (\<forall>v. v \<in> dom clamped \<longrightarrow> sp' v = sp v)
     \<and> (valid_spins sp \<longrightarrow> valid_spins sp')"
proof (induction bs arbitrary: sp g)
  case Nil
  then show ?case by simp
next
  case (Cons b bs)
  from Cons.prems obtain sp1 g1 where
    u: "sweep R clamped h J adj colors b (sp, g) = Inr (sp1, g1)"
    and c: "sweeps R clamped h J adj colors bs (sp1, g1) = Inr (sp', g')"
    by (auto simp: and_then_Inr_iff)
  from sweep_frame[OF u] Cons.IH[OF c] show ?case by auto
qed

subsection \<open>The loop over the schedule\<close>

lemma sweeps_append:
  "sweeps R clamped h J adj colors (xs @ ys) st
     = and_then (sweeps R clamped h J adj colors xs st) (sweeps R clamped h J adj colors ys)"
proof (induction xs arbitrary: st)
  case Nil
  show ?case by simp
next
  case (Cons x xs)
  show ?case
    by (cases "sweep R clamped h J adj colors x st") (simp_all add: Cons.IH)
qed

lemma after_sweeps_prefix:
  "k \<le> length xs \<Longrightarrow>
     after_sweeps R clamped h J adj colors (xs @ ys) k st
       = after_sweeps R clamped h J adj colors xs k st"
  by (induction k) (simp_all add: nth_append)

lemma sweeps_after_sweeps:
  "sweeps R clamped h J adj colors schedule st
     = after_sweeps R clamped h J adj colors schedule (length schedule) st"
proof (induction schedule rule: rev_induct)
  case Nil
  show ?case by simp
next
  case (snoc x xs)
  have "sweeps R clamped h J adj colors [x] s = sweep R clamped h J adj colors x s" for s
    by (cases "sweep R clamped h J adj colors x s") simp_all
  then have "sweeps R clamped h J adj colors [x] = sweep R clamped h J adj colors x"
    by (rule ext)
  then show ?case
    by (simp add: sweeps_append snoc.IH after_sweeps_prefix)
qed

subsection \<open>Building the adjacency\<close>

lemma add_edges_Cons_known:
  assumes "adj n0 = Some s0" and "(adj(n0 \<mapsto> List.insert n1 s0)) n1 = Some s1"
  shows "add_edges ((n0, n1) # es) adj
    = add_edges es (adj(n0 \<mapsto> List.insert n1 s0, n1 \<mapsto> List.insert n0 s1))"
  using assms by (simp add: lookup_def)

lemma add_edges_Cons_unknown0:
  "adj n0 = None \<Longrightarrow> add_edges ((n0, n1) # es) adj = Inl (KeyError n0)"
  by (simp add: lookup_def)

lemma closed_adj_step:
  assumes c: "closed_adj adj" and a: "adj n0 = Some s0"
    and b: "(adj(n0 \<mapsto> List.insert n1 s0)) n1 = Some s1"
  shows "closed_adj (adj(n0 \<mapsto> List.insert n1 s0, n1 \<mapsto> List.insert n0 s1))"
    and "dom (adj(n0 \<mapsto> List.insert n1 s0, n1 \<mapsto> List.insert n0 s1)) = dom adj"
proof -
  have n0: "n0 \<in> dom adj" using a by blast
  have n1: "n1 \<in> dom adj" using b by (cases "n1 = n0") (auto simp: n0)
  show d: "dom (adj(n0 \<mapsto> List.insert n1 s0, n1 \<mapsto> List.insert n0 s1)) = dom adj"
    using n0 n1 by auto
  have s0: "set s0 \<subseteq> dom adj \<and> distinct s0" using c a unfolding closed_adj_def by blast
  have s1: "set s1 \<subseteq> dom adj \<and> distinct s1"
  proof (cases "n1 = n0")
    case True
    with b have "s1 = List.insert n1 s0" by simp
    with s0 n1 show ?thesis by auto
  next
    case False
    with b have "adj n1 = Some s1" by simp
    with c show ?thesis unfolding closed_adj_def by blast
  qed
  show "closed_adj (adj(n0 \<mapsto> List.insert n1 s0, n1 \<mapsto> List.insert n0 s1))"
    unfolding closed_adj_def d
  proof (intro allI impI)
    fix v ns
    assume v: "(adj(n0 \<mapsto> List.insert n1 s0, n1 \<mapsto> List.insert n0 s1)) v = Some ns"
    consider "v = n1" | "v \<noteq> n1" "v = n0" | "v \<noteq> n1" "v \<noteq> n0" by blast
    then show "set ns \<subseteq> dom adj \<and> distinct ns"
    proof cases
      case 1
      with v have "ns = List.insert n0 s1" by simp
      with s1 n0 show ?thesis by auto
    next
      case 2
      with v have "ns = List.insert n1 s0" by simp
      with s0 n1 show ?thesis by auto
    next
      case 3
      with v have "adj v = Some ns" by simp
      with c show ?thesis unfolding closed_adj_def by blast
    qed
  qed
qed

lemma add_edges_known:
  "closed_adj adj \<Longrightarrow> \<forall>e \<in> set es. fst e \<in> dom adj \<and> snd e \<in> dom adj \<Longrightarrow>
     \<exists>adj'. add_edges es adj = Inr adj' \<and> dom adj' = dom adj \<and> closed_adj adj'"
proof (induction es arbitrary: adj)
  case Nil
  then show ?case by simp
next
  case (Cons e es)
  obtain n0 n1 where e: "e = (n0, n1)" by (cases e)
  from Cons.prems(2) e obtain s0 where s0: "adj n0 = Some s0" by auto
  from Cons.prems(2) e have "n1 \<in> dom (adj(n0 \<mapsto> List.insert n1 s0))" by auto
  then obtain s1 where s1: "(adj(n0 \<mapsto> List.insert n1 s0)) n1 = Some s1" by blast
  let ?adj = "adj(n0 \<mapsto> List.insert n1 s0, n1 \<mapsto> List.insert n0 s1)"
  note st = closed_adj_step[OF Cons.prems(1) s0 s1]
  have "\<forall>e \<in> set es. fst e \<in> dom ?adj \<and> snd e \<in> dom ?adj"
    unfolding st(2) using Cons.prems(2) by simp
  from Cons.IH[OF st(1) this] show ?case
    unfolding e add_edges_Cons_known[OF s0 s1] st(2) .
qed

lemma add_edges_unknown:
  "closed_adj adj \<Longrightarrow> \<exists>e \<in> set es. fst e \<notin> dom adj \<or> snd e \<notin> dom adj \<Longrightarrow>
     \<exists>err. add_edges es adj = Inl err"
proof (induction es arbitrary: adj)
  case Nil
  then show ?case by simp
next
  case (Cons e es)
  obtain n0 n1 where e: "e = (n0, n1)" by (cases e)
  show ?case
  proof (cases "adj n0")
    case None
    show ?thesis unfolding e add_edges_Cons_unknown0[of adj n0 n1 es, OF None] by blast
  next
    case (Some s0)
    show ?thesis
    proof (cases "(adj(n0 \<mapsto> List.insert n1 s0)) n1")
      case None
      then show ?thesis unfolding e using Some by (simp add: lookup_def)
    next
      case s1: (Some s1)
      let ?adj = "adj(n0 \<mapsto> List.insert n1 s0, n1 \<mapsto> List.insert n0 s1)"
      note st = closed_adj_step[OF Cons.prems(1) Some s1]
      have "n0 \<in> dom adj" using Some by blast
      moreover have "n1 \<in> dom adj" using s1 Some by (cases "n1 = n0") auto
      ultimately have "\<exists>e \<in> set es. fst e \<notin> dom ?adj \<or> snd e \<notin> dom ?adj"
        unfolding st(2) using Cons.prems(2) e by auto
      from Cons.IH[OF st(1) this] show ?thesis
        unfolding e add_edges_Cons_known[OF Some s1] .
    qed
  qed
qed

lemma empty_adj_dom: "dom (empty_adj h) = fst ` set h"
  by (simp add: empty_adj_def dom_map_of_conv_image_fst image_image)

lemma empty_adj_closed: "closed_adj (empty_adj h)"
proof -
  have "empty_adj h v = Some ns \<Longrightarrow> ns = []" for v ns
    unfolding empty_adj_def by (induction h) (auto split: if_splits)
  then show ?thesis unfolding closed_adj_def by fastforce
qed

subsection \<open>Runs without error\<close>

lemma energy_diff_h_loop_ok:
  "set vs \<subseteq> dom sp \<Longrightarrow> set vs \<subseteq> dom (map_of h) \<Longrightarrow>
     \<exists>m'. energy_diff_h_loop h vs sp m = Inr m' \<and> dom m' = dom m \<union> set vs"
proof (induction vs arbitrary: m)
  case Nil
  then show ?case by simp
next
  case (Cons v vs)
  from Cons.prems obtain s hv where s: "sp v = Some s" and hv: "map_of h v = Some hv"
    by auto
  have step: "energy_diff_h_loop h (v # vs) sp m
      = energy_diff_h_loop h vs sp (m(v \<mapsto> - 2 * real_of_int s * hv))"
    using s hv by (simp add: lookup_def)
  from Cons.prems have sub: "set vs \<subseteq> dom sp" "set vs \<subseteq> dom (map_of h)" by simp_all
  have "\<exists>m'. energy_diff_h_loop h vs sp (m(v \<mapsto> - 2 * real_of_int s * hv)) = Inr m'
      \<and> dom m' = dom (m(v \<mapsto> - 2 * real_of_int s * hv)) \<union> set vs"
    by (rule Cons.IH[OF sub])
  then show ?case unfolding step by auto
qed

lemma energy_diff_h_ok:
  assumes "fst ` set h \<subseteq> dom sp"
  shows "\<exists>edh. energy_diff_h h sp = Inr edh \<and> dom edh = fst ` set h"
proof -
  have "set (map fst h) \<subseteq> dom sp" using assms by simp
  moreover have "set (map fst h) \<subseteq> dom (map_of h)"
    by (simp add: dom_map_of_conv_image_fst)
  ultimately show ?thesis
    unfolding energy_diff_h_def
    using energy_diff_h_loop_ok[of "map fst h" sp h Map.empty] by simp
qed

lemma add_term_ok:
  "sp v0 = Some s0 \<Longrightarrow> sp v1 = Some s1 \<Longrightarrow> \<exists>e'. add_term J sp v0 v1 k e = Inr e'"
  by (simp add: add_term_def lookup_def split: option.splits)

lemma ediff_loop_ok:
  "sp v0 = Some s0 \<Longrightarrow> set ns \<subseteq> dom sp \<Longrightarrow> \<exists>e'. ediff_loop J sp v0 ns e = Inr e'"
proof (induction ns arbitrary: e)
  case Nil
  then show ?case by simp
next
  case (Cons v1 ns)
  from Cons.prems(2) obtain s1 where s1: "sp v1 = Some s1" by auto
  from add_term_ok[of sp v0 s0 v1 s1 J "(v0, v1)" e, OF Cons.prems(1) s1]
  obtain e1 where e1: "add_term J sp v0 v1 (v0, v1) e = Inr e1" by blast
  from add_term_ok[of sp v0 s0 v1 s1 J "(v1, v0)" e1, OF Cons.prems(1) s1]
  obtain e2 where e2: "add_term J sp v0 v1 (v1, v0) e1 = Inr e2" by blast
  from Cons.prems(2) have "set ns \<subseteq> dom sp" by simp
  from Cons.IH[OF Cons.prems(1) this, of e2] show ?case by (simp add: e1 e2)
qed

lemma energy_diff_J_loop_ok:
  "set vs \<subseteq> dom adj \<Longrightarrow> closed_adj adj \<Longrightarrow> dom adj \<subseteq> dom sp \<Longrightarrow>
     \<exists>m'. energy_diff_J_loop J adj sp vs m = Inr m' \<and> dom m' = dom m \<union> set vs"
proof (induction vs arbitrary: m)
  case Nil
  then show ?case by simp
next
  case (Cons v vs)
  from Cons.prems(1) obtain ns where ns: "adj v = Some ns" by auto
  with Cons.prems(2) have "set ns \<subseteq> dom adj" unfolding closed_adj_def by blast
  with Cons.prems(3) have sub: "set ns \<subseteq> dom sp" by blast
  from ns Cons.prems(3) obtain s where s: "sp v = Some s" by blast
  from ediff_loop_ok[of sp v s ns J 0, OF s sub]
  obtain e where e: "ediff_loop J sp v ns 0 = Inr e" by blast
  have step: "energy_diff_J_loop J adj sp (v # vs) m
      = energy_diff_J_loop J adj sp vs (m(v \<mapsto> - 2 * e))"
    using ns e by (simp add: lookup_def)
  from Cons.prems have "set vs \<subseteq> dom adj" by simp
  then have "\<exists>m'. energy_diff_J_loop J adj sp vs (m(v \<mapsto> - 2 * e)) = Inr m'
      \<and> dom m' = dom (m(v \<mapsto> - 2 * e)) \<union> set vs"
    using Cons.prems(2,3) by (rule Cons.IH)
  then show ?case unfolding step by auto
qed

lemma metropolis_loop_ok:
  "set vs \<subseteq> dom edh \<Longrightarrow> set vs \<subseteq> dom edJ \<Longrightarrow> set vs \<subseteq> dom sp \<Longrightarrow>
     \<exists>st'. metropolis_loop R \<beta> edh edJ vs (sp, g) = Inr st'"
proof (induction vs arbitrary: sp g)
  case Nil
  then show ?case by simp
next
  case (Cons v vs)
  from Cons.prems obtain dh dJ s where
    d: "edh v = Some dh" "edJ v = Some dJ" and s: "sp v = Some s" by auto
  from Cons.prems have sub: "set vs \<subseteq> dom edh" "set vs \<subseteq> dom edJ" "set vs \<subseteq> dom sp"
    by simp_all
  have "set vs \<subseteq> dom (sp(v \<mapsto> s * - 1))" using sub(3) by auto
  with sub(1,2)
  have a: "\<exists>st'. metropolis_loop R \<beta> edh edJ vs (sp(v \<mapsto> s * - 1), snd (uniform R g)) = Inr st'"
    by (rule Cons.IH)
  from sub
  have b: "\<exists>st'. metropolis_loop R \<beta> edh edJ vs (sp, snd (uniform R g)) = Inr st'"
    by (rule Cons.IH)
  show ?case
  proof (cases "accepts \<beta> (dh + dJ) (fst (uniform R g))")
    case True
    with a d s show ?thesis unfolding metropolis_loop_Cons_Inr by auto
  next
    case False
    with b d show ?thesis unfolding metropolis_loop_Cons_Inr by auto
  qed
qed

lemma update_color_ok:
  assumes "set nodes \<subseteq> K" and "dom adj = K" and "closed_adj adj" and "dom sp = K"
    and "dom edh = K"
  shows "\<exists>sp' g'. update_color R clamped J adj \<beta> edh nodes (sp, g) = Inr (sp', g')
    \<and> dom sp' = K"
proof -
  from energy_diff_J_loop_ok[of nodes adj sp J Map.empty] assms
  obtain edJ where e: "energy_diff_J_loop J adj sp nodes Map.empty = Inr edJ"
    and de: "dom edJ = set nodes" by auto
  let ?free = "filter (\<lambda>x. x \<notin> dom clamped) nodes"
  have "set ?free \<subseteq> dom edh" "set ?free \<subseteq> dom edJ" "set ?free \<subseteq> dom sp"
    using assms de by auto
  from metropolis_loop_ok[OF this, of R \<beta> g]
  obtain sp' g' where m: "metropolis_loop R \<beta> edh edJ ?free (sp, g) = Inr (sp', g')"
    by (metis surj_pair)
  then have u: "update_color R clamped J adj \<beta> edh nodes (sp, g) = Inr (sp', g')"
    by (simp add: update_color_def e)
  from update_color_frame(1)[OF u] assms(4) u show ?thesis by simp
qed

lemma colors_loop_ok:
  "\<forall>c \<in> set cs. set c \<subseteq> K \<Longrightarrow> dom adj = K \<Longrightarrow> closed_adj adj \<Longrightarrow> dom sp = K \<Longrightarrow>
     dom edh = K \<Longrightarrow>
     \<exists>sp' g'. colors_loop R clamped J adj \<beta> edh cs (sp, g) = Inr (sp', g') \<and> dom sp' = K"
proof (induction cs arbitrary: sp g)
  case Nil
  then show ?case by simp
next
  case (Cons c cs)
  from Cons.prems(1) have c: "set c \<subseteq> K" and cs: "\<forall>c \<in> set cs. set c \<subseteq> K" by simp_all
  from update_color_ok[OF c Cons.prems(2,3,4,5), of R clamped J \<beta> g]
  obtain sp1 g1 where u: "update_color R clamped J adj \<beta> edh c (sp, g) = Inr (sp1, g1)"
    and d: "dom sp1 = K" by blast
  from Cons.IH[OF cs Cons.prems(2,3) d Cons.prems(5), of g1]
  show ?case by (simp add: u)
qed

lemma sweep_ok:
  assumes "\<forall>c \<in> set colors. set c \<subseteq> fst ` set h" and "dom adj = fst ` set h"
    and "closed_adj adj" and "dom sp = fst ` set h"
  shows "\<exists>sp' g'. sweep R clamped h J adj colors \<beta> (sp, g) = Inr (sp', g')
    \<and> dom sp' = fst ` set h"
proof -
  from energy_diff_h_ok[of h sp] assms(4)
  obtain edh where e: "energy_diff_h h sp = Inr edh" and d: "dom edh = fst ` set h"
    by auto
  from colors_loop_ok[OF assms d, of R clamped J \<beta> g] show ?thesis
    by (simp add: sweep_def e)
qed

lemma sweeps_ok:
  "\<forall>c \<in> set colors. set c \<subseteq> fst ` set h \<Longrightarrow> dom adj = fst ` set h \<Longrightarrow> closed_adj adj \<Longrightarrow>
     dom sp = fst ` set h \<Longrightarrow>
     \<exists>sp' g'. sweeps R clamped h J adj colors schedule (sp, g) = Inr (sp', g')"
proof (induction schedule arbitrary: sp g)
  case Nil
  then show ?case by simp
next
  case (Cons b bs)
  from sweep_ok[OF Cons.prems, of R clamped J b g]
  obtain sp1 g1 where u: "sweep R clamped h J adj colors b (sp, g) = Inr (sp1, g1)"
    and d: "dom sp1 = fst ` set h" by blast
  from Cons.IH[OF Cons.prems(1,2,3) d, of g1] show ?case by (simp add: u)
qed

lemma sample_ok:
  assumes "colours_within greedy_coloring (fst ` set h)"
    and "add_edges (map fst J) (empty_adj h) = Inr adj"
    and "dom adj = fst ` set h" and "closed_adj adj"
  shows "\<exists>sp. sample R greedy_coloring h J clamped schedule g = Inr sp"
proof -
  let ?init = "init_spins R clamped (map fst h) Map.empty g"
  have c: "\<forall>c \<in> set (greedy_coloring adj). set c \<subseteq> fst ` set h"
    using assms(1,3) unfolding colours_within_def by blast
  have d: "dom (fst ?init) = fst ` set h" by (simp add: init_spins_dom)
  from sweeps_ok[OF c assms(3,4) d, of R clamped J schedule "snd ?init"]
  show ?thesis
    by (auto simp: sample_def assms(2))
qed

lemma add_edges_Inr_props:
  assumes "closed_adj adj0" and "add_edges es adj0 = Inr adj"
  shows "dom adj = dom adj0" and "closed_adj adj"
    and "\<forall>e \<in> set es. fst e \<in> dom adj0 \<and> snd e \<in> dom adj0"
proof -
  show k: "\<forall>e \<in> set es. fst e \<in> dom adj0 \<and> snd e \<in> dom adj0"
  proof (rule ccontr)
    assume "\<not> (\<forall>e \<in> set es. fst e \<in> dom adj0 \<and> snd e \<in> dom adj0)"
    then have "\<exists>e \<in> set es. fst e \<notin> dom adj0 \<or> snd e \<notin> dom adj0" by blast
    from add_edges_unknown[OF assms(1) this] assms(2) show False by simp
  qed
  from add_edges_known[OF assms(1) k] assms(2)
  show "dom adj = dom adj0" and "closed_adj adj" by simp_all
qed

subsection \<open>Energy differences in closed form\<close>

lemma add_term_value:
  "add_term J sp v0 v1 k e = Inr e' \<Longrightarrow>
     e' = e + spin_of sp v0 * spin_of sp v1 * (case map_of J k of None \<Rightarrow> 0 | Some w \<Rightarrow> w)"
  by (auto simp: add_term_def and_then_Inr_iff lookup_Inr_iff spin_of_def split: option.splits)

lemma ediff_loop_value:
  "ediff_loop J sp v ns e = Inr e' \<Longrightarrow>
     e' = e + spin_of sp v * (\<Sum>u\<leftarrow>ns. coupling J v u * spin_of sp u)"
proof (induction ns arbitrary: e)
  case Nil
  then show ?case by simp
next
  case (Cons u ns)
  from Cons.prems obtain e1 e2 where
    a: "add_term J sp v u (v, u) e = Inr e1" and b: "add_term J sp v u (u, v) e1 = Inr e2"
    and c: "ediff_loop J sp v ns e2 = Inr e'"
    by (auto simp: and_then_Inr_iff)
  from add_term_value[OF a] add_term_value[OF b]
  have "e2 = e + spin_of sp v * (coupling J v u * spin_of sp u)"
    by (simp add: coupling_def algebra_simps)
  with Cons.IH[OF c] show ?case by (simp add: algebra_simps)
qed

lemma add_term_cong:
  "sp1 v0 = sp2 v0 \<Longrightarrow> sp1 v1 = sp2 v1 \<Longrightarrow> add_term J sp1 v0 v1 k e = add_term J sp2 v0 v1 k e"
  by (simp add: add_term_def lookup_def split: option.splits)

lemma ediff_loop_cong:
  "sp1 v = sp2 v \<Longrightarrow> \<forall>x \<in> set ns. sp1 x = sp2 x \<Longrightarrow>
     ediff_loop J sp1 v ns e = ediff_loop J sp2 v ns e"
proof (induction ns arbitrary: e)
  case Nil
  then show ?case by simp
next
  case (Cons u ns)
  from Cons.prems have u: "sp1 u = sp2 u" and r: "\<forall>x \<in> set ns. sp1 x = sp2 x" by simp_all
  have t: "add_term J sp1 v u k x = add_term J sp2 v u k x" for k x
    by (rule add_term_cong[OF Cons.prems(1) u])
  have "ediff_loop J sp1 v ns x = ediff_loop J sp2 v ns x" for x
    by (rule Cons.IH[OF Cons.prems(1) r])
  then have i: "ediff_loop J sp1 v ns = ediff_loop J sp2 v ns" by (rule ext)
  show ?case by (simp add: t i)
qed

lemma energy_diff_J_loop_value:
  "energy_diff_J_loop J adj sp vs m = Inr m' \<Longrightarrow>
     (\<forall>v \<in> set vs. \<exists>ns e. adj v = Some ns \<and> ediff_loop J sp v ns 0 = Inr e
         \<and> m' v = Some (- 2 * e))
     \<and> (\<forall>v. v \<notin> set vs \<longrightarrow> m' v = m v)"
proof (induction vs arbitrary: m)
  case Nil
  then show ?case by simp
next
  case (Cons v vs)
  from Cons.prems obtain ns e where ns: "adj v = Some ns"
    and e: "ediff_loop J sp v ns 0 = Inr e"
    and r: "energy_diff_J_loop J adj sp vs (m(v \<mapsto> - 2 * e)) = Inr m'"
    by (auto simp: and_then_Inr_iff lookup_Inr_iff)
  have ih1: "\<forall>w \<in> set vs. \<exists>ns e. adj w = Some ns \<and> ediff_loop J sp w ns 0 = Inr e
         \<and> m' w = Some (- 2 * e)"
    and ih2: "\<forall>w. w \<notin> set vs \<longrightarrow> m' w = (m(v \<mapsto> - 2 * e)) w"
    using Cons.IH[OF r] by blast+
  have "\<exists>ns e. adj v = Some ns \<and> ediff_loop J sp v ns 0 = Inr e \<and> m' v = Some (- 2 * e)"
  proof (cases "v \<in> set vs")
    case True
    with ih1 show ?thesis by blast
  next
    case False
    with ih2 have "m' v = Some (- 2 * e)" by simp
    with ns e show ?thesis by blast
  qed
  moreover have "\<forall>w. w \<notin> set (v # vs) \<longrightarrow> m' w = m w" using ih2 by simp
  ultimately show ?case using ih1 by simp
qed

subsection \<open>A class update, at once and node by node\<close>

lemma batch_result_Nil: "batch_result \<beta> edh edJ [] sp = sp"
  by (rule ext) (simp add: batch_result_def)

lemma metropolis_loop_batch:
  "metropolis_loop R \<beta> edh edJ vs (sp, g) = Inr (sp', g') \<Longrightarrow> distinct vs \<Longrightarrow>
     sp' = batch_result \<beta> edh edJ (zip vs (uniform_draws R g (length vs))) sp
     \<and> (\<forall>p \<in> set (zip vs (uniform_draws R g (length vs))).
           \<exists>dh dJ. edh (fst p) = Some dh \<and> edJ (fst p) = Some dJ
             \<and> (accepts \<beta> (dh + dJ) (snd p) \<longrightarrow> fst p \<in> dom sp))"
proof (induction vs arbitrary: sp g)
  case Nil
  then show ?case by (simp add: batch_result_Nil)
next
  case (Cons v vs)
  let ?u = "fst (uniform R g)" and ?g = "snd (uniform R g)"
  let ?ps = "zip vs (uniform_draws R ?g (length vs))"
  from Cons.prems(2) have dv: "distinct vs" and nv: "v \<notin> set vs" by simp_all
  have nz: "map_of ?ps v = None"
    using nv by (metis map_of_eq_None_iff set_zip_leftD imageE prod.collapse)
  from Cons.prems(1) obtain dh dJ where
    d: "edh v = Some dh" "edJ v = Some dJ" and
    r: "if accepts \<beta> (dh + dJ) ?u
         then (\<exists>s. sp v = Some s \<and>
                 metropolis_loop R \<beta> edh edJ vs (sp(v \<mapsto> s * - 1), ?g) = Inr (sp', g'))
         else metropolis_loop R \<beta> edh edJ vs (sp, ?g) = Inr (sp', g')"
    unfolding metropolis_loop_Cons_Inr by blast
  define sp1 where "sp1 = (if accepts \<beta> (dh + dJ) ?u then sp(v := map_option (\<lambda>s. s * - 1) (sp v)) else sp)"
  have m: "metropolis_loop R \<beta> edh edJ vs (sp1, ?g) = Inr (sp', g')"
    and acc: "accepts \<beta> (dh + dJ) ?u \<longrightarrow> v \<in> dom sp"
    using r unfolding sp1_def by (auto split: if_splits)
  have ih1: "sp' = batch_result \<beta> edh edJ ?ps sp1"
    and ih2: "\<forall>p \<in> set ?ps. \<exists>dh dJ. edh (fst p) = Some dh \<and> edJ (fst p) = Some dJ
             \<and> (accepts \<beta> (dh + dJ) (snd p) \<longrightarrow> fst p \<in> dom sp1)"
    using Cons.IH[OF m dv] by blast+
  have dom1: "dom sp1 = dom sp" using acc unfolding sp1_def by (auto split: if_splits)
  have "sp' w = batch_result \<beta> edh edJ ((v, ?u) # ?ps) sp w" for w
  proof (cases "w = v")
    case True
    then show ?thesis
      unfolding ih1 by (simp add: batch_result_def nz d sp1_def)
  next
    case False
    then have "sp1 w = sp w" unfolding sp1_def by simp
    with False show ?thesis unfolding ih1 by (simp add: batch_result_def split: option.splits)
  qed
  then have "sp' = batch_result \<beta> edh edJ ((v, ?u) # ?ps) sp" by (rule ext)
  moreover have "\<forall>p \<in> set ((v, ?u) # ?ps). \<exists>dh dJ. edh (fst p) = Some dh \<and> edJ (fst p) = Some dJ
             \<and> (accepts \<beta> (dh + dJ) (snd p) \<longrightarrow> fst p \<in> dom sp)"
    using ih2 d acc unfolding dom1 by simp
  ultimately show ?case by simp
qed

lemma batch_result_Cons:
  assumes "edh v = Some dh" and "edJ v = Some dJ" and "v \<notin> fst ` set ps"
  shows "batch_result \<beta> edh edJ ((v, u) # ps) sp
    = batch_result \<beta> edh edJ ps
        (if accepts \<beta> (dh + dJ) u then sp(v := map_option (\<lambda>s. s * - 1) (sp v)) else sp)"
proof (rule ext)
  fix w
  have nz: "map_of ps v = None" using assms(3) by (simp add: map_of_eq_None_iff)
  show "batch_result \<beta> edh edJ ((v, u) # ps) sp w
    = batch_result \<beta> edh edJ ps
        (if accepts \<beta> (dh + dJ) u then sp(v := map_option (\<lambda>s. s * - 1) (sp v)) else sp) w"
  proof (cases "w = v")
    case True
    then show ?thesis by (simp add: batch_result_def nz assms(1,2))
  next
    case False
    then show ?thesis by (simp add: batch_result_def split: option.splits)
  qed
qed

lemma sequential_updates_batch:
  "\<forall>p \<in> set ps. \<exists>ns e dh. adj (fst p) = Some ns \<and> ediff_loop J sp0 (fst p) ns 0 = Inr e
         \<and> edJ (fst p) = Some (- 2 * e) \<and> edh (fst p) = Some dh
         \<and> (\<exists>s hv. sp0 (fst p) = Some s \<and> map_of h (fst p) = Some hv
                \<and> dh = - 2 * real_of_int s * hv)
         \<and> (\<forall>x \<in> insert (fst p) (set ns). sp x = sp0 x)
         \<and> (\<forall>q \<in> set ps. fst q \<noteq> fst p \<longrightarrow> fst q \<notin> set ns) \<Longrightarrow>
   distinct (map fst ps) \<Longrightarrow>
   sequential_updates h J adj \<beta> ps sp = Inr (batch_result \<beta> edh edJ ps sp)"
proof (induction ps arbitrary: sp)
  case Nil
  then show ?case by (simp add: batch_result_Nil)
next
  case (Cons p ps)
  obtain v u where p: "p = (v, u)" by (cases p)
  from Cons.prems(1) p obtain ns e dh where
    ns: "adj v = Some ns" and e: "ediff_loop J sp0 v ns 0 = Inr e"
    and dJ: "edJ v = Some (- 2 * e)" and dh: "edh v = Some dh"
    and bias: "\<exists>s hv. sp0 v = Some s \<and> map_of h v = Some hv \<and> dh = - 2 * real_of_int s * hv"
    and agree: "\<forall>x \<in> insert v (set ns). sp x = sp0 x"
    by auto
  from bias agree obtain s hv where s: "sp v = Some s" and hv: "map_of h v = Some hv"
    and dhv: "dh = - 2 * real_of_int s * hv" by auto
  from Cons.prems(2) p have nv: "v \<notin> fst ` set ps" and dps: "distinct (map fst ps)"
    by simp_all
  define sp1 where
    "sp1 = (if accepts \<beta> (dh + - 2 * e) u then sp(v := map_option (\<lambda>s. s * - 1) (sp v)) else sp)"
  have "ediff_loop J sp v ns 0 = ediff_loop J sp0 v ns 0"
    by (rule ediff_loop_cong) (use agree in simp_all)
  with e have e': "ediff_loop J sp v ns 0 = Inr e" by simp
  have step: "node_update h J adj \<beta> v u sp = Inr sp1"
  proof (cases "accepts \<beta> (dh + - 2 * e) u")
    case True
    from s have "sp(v \<mapsto> s * - 1) = sp1" unfolding sp1_def using True by simp
    with True show ?thesis
      by (simp add: node_update_def lookup_def ns e' s hv dhv)
  next
    case False
    then show ?thesis
      by (simp add: node_update_def lookup_def ns e' s hv sp1_def dhv)
  qed
  have other: "sp1 x = sp x" if "x \<noteq> v" for x using that unfolding sp1_def by simp
  have rest: "\<forall>q \<in> set ps. \<exists>ns e dh. adj (fst q) = Some ns \<and> ediff_loop J sp0 (fst q) ns 0 = Inr e
         \<and> edJ (fst q) = Some (- 2 * e) \<and> edh (fst q) = Some dh
         \<and> (\<exists>s hv. sp0 (fst q) = Some s \<and> map_of h (fst q) = Some hv
                \<and> dh = - 2 * real_of_int s * hv)
         \<and> (\<forall>x \<in> insert (fst q) (set ns). sp1 x = sp0 x)
         \<and> (\<forall>r \<in> set ps. fst r \<noteq> fst q \<longrightarrow> fst r \<notin> set ns)"
  proof
    fix q assume q: "q \<in> set ps"
    with Cons.prems(1) obtain nq eq dq where
      f: "adj (fst q) = Some nq" "ediff_loop J sp0 (fst q) nq 0 = Inr eq"
        "edJ (fst q) = Some (- 2 * eq)" "edh (fst q) = Some dq"
        "\<exists>s hv. sp0 (fst q) = Some s \<and> map_of h (fst q) = Some hv
           \<and> dq = - 2 * real_of_int s * hv"
      and ag: "\<forall>x \<in> insert (fst q) (set nq). sp x = sp0 x"
      and ind: "\<forall>r \<in> set (p # ps). fst r \<noteq> fst q \<longrightarrow> fst r \<notin> set nq"
      by (metis list.set_intros(2))
    from q nv have ne: "fst q \<noteq> v" by force
    with ind p have "v \<notin> set nq" by force
    with ne ag other have "\<forall>x \<in> insert (fst q) (set nq). sp1 x = sp0 x" by force
    moreover from ind have "\<forall>r \<in> set ps. fst r \<noteq> fst q \<longrightarrow> fst r \<notin> set nq" by simp
    ultimately show "\<exists>ns e dh. adj (fst q) = Some ns \<and> ediff_loop J sp0 (fst q) ns 0 = Inr e
         \<and> edJ (fst q) = Some (- 2 * e) \<and> edh (fst q) = Some dh
         \<and> (\<exists>s hv. sp0 (fst q) = Some s \<and> map_of h (fst q) = Some hv
                \<and> dh = - 2 * real_of_int s * hv)
         \<and> (\<forall>x \<in> insert (fst q) (set ns). sp1 x = sp0 x)
         \<and> (\<forall>r \<in> set ps. fst r \<noteq> fst q \<longrightarrow> fst r \<notin> set ns)"
      using f by blast
  qed
  have "sequential_updates h J adj \<beta> ps sp1 = Inr (batch_result \<beta> edh edJ ps sp1)"
    using rest dps by (rule Cons.IH)
  moreover have "batch_result \<beta> edh edJ ((v, u) # ps) sp = batch_result \<beta> edh edJ ps sp1"
    unfolding sp1_def using dh dJ nv by (rule batch_result_Cons)
  ultimately show ?case unfolding p by (simp add: step)
qed

lemma length_uniform_draws: "length (uniform_draws R g n) = n"
  by (induction n arbitrary: g) simp_all

lemma batch_result_map_of:
  "map_of ps = map_of qs \<Longrightarrow> batch_result \<beta> edh edJ ps sp = batch_result \<beta> edh edJ qs sp"
  by (simp add: batch_result_def)

subsection \<open>The bias part\<close>

lemma energy_diff_h_loop_value:
  "energy_diff_h_loop h vs sp m = Inr m' \<Longrightarrow>
     (\<forall>v \<in> set vs. \<exists>s hv. sp v = Some s \<and> map_of h v = Some hv
         \<and> m' v = Some (- 2 * real_of_int s * hv))
     \<and> (\<forall>v. v \<notin> set vs \<longrightarrow> m' v = m v)"
proof (induction vs arbitrary: m)
  case Nil
  then show ?case by simp
next
  case (Cons v vs)
  from Cons.prems obtain s hv where s: "sp v = Some s" and hv: "map_of h v = Some hv"
    and r: "energy_diff_h_loop h vs sp (m(v \<mapsto> - 2 * real_of_int s * hv)) = Inr m'"
    by (auto simp: and_then_Inr_iff lookup_Inr_iff)
  have ih1: "\<forall>w \<in> set vs. \<exists>s hv. sp w = Some s \<and> map_of h w = Some hv
         \<and> m' w = Some (- 2 * real_of_int s * hv)"
    and ih2: "\<forall>w. w \<notin> set vs \<longrightarrow> m' w = (m(v \<mapsto> - 2 * real_of_int s * hv)) w"
    using Cons.IH[OF r] by blast+
  have "\<exists>s hv. sp v = Some s \<and> map_of h v = Some hv \<and> m' v = Some (- 2 * real_of_int s * hv)"
  proof (cases "v \<in> set vs")
    case True
    with ih1 show ?thesis by blast
  next
    case False
    with ih2 have "m' v = Some (- 2 * real_of_int s * hv)" by simp
    with s hv show ?thesis by blast
  qed
  moreover have "\<forall>w. w \<notin> set (v # vs) \<longrightarrow> m' w = m w" using ih2 by simp
  ultimately show ?case using ih1 by simp
qed

lemma energy_diff_h_value:
  assumes "energy_diff_h h sp = Inr edh" and "edh v = Some dh"
  shows "\<exists>s hv. sp v = Some s \<and> map_of h v = Some hv \<and> dh = - 2 * real_of_int s * hv"
proof -
  from energy_diff_h_loop_value[OF assms(1)[unfolded energy_diff_h_def]]
  have a: "\<forall>v \<in> set (map fst h). \<exists>s hv. sp v = Some s \<and> map_of h v = Some hv
         \<and> edh v = Some (- 2 * real_of_int s * hv)"
    and b: "\<forall>v. v \<notin> set (map fst h) \<longrightarrow> edh v = None" by simp_all
  from b assms(2) have "v \<in> set (map fst h)" by force
  with a assms(2) show ?thesis by force
qed

subsection \<open>Splitting a sweep at a class\<close>

lemma colors_loop_append:
  "colors_loop R clamped J adj \<beta> edh (xs @ ys) st
     = and_then (colors_loop R clamped J adj \<beta> edh xs st) (colors_loop R clamped J adj \<beta> edh ys)"
proof (induction xs arbitrary: st)
  case Nil
  show ?case by simp
next
  case (Cons x xs)
  show ?case
    by (cases "update_color R clamped J adj \<beta> edh x st") (simp_all add: Cons.IH)
qed

lemma colors_loop_split:
  assumes "colors_loop R clamped J adj \<beta> edh colors st0 = Inr stN" and "k < length colors"
  shows "\<exists>st st'. colors_loop R clamped J adj \<beta> edh (take k colors) st0 = Inr st
    \<and> update_color R clamped J adj \<beta> edh (colors ! k) st = Inr st'
    \<and> colors_loop R clamped J adj \<beta> edh (drop (Suc k) colors) st' = Inr stN"
proof -
  have "colors = take k colors @ (colors ! k # drop (Suc k) colors)"
    using assms(2) by (simp add: id_take_nth_drop[symmetric])
  then have "colors_loop R clamped J adj \<beta> edh (take k colors @ (colors ! k # drop (Suc k) colors)) st0
      = Inr stN" using assms(1) by simp
  then show ?thesis
    unfolding colors_loop_append by (auto simp: and_then_Inr_iff)
qed

lemma distinct_concat_nth:
  assumes "distinct (concat xss)" and "k < length xss"
  shows "distinct (xss ! k)"
    and "set (xss ! k) \<inter> set (concat (take k xss)) = {}"
    and "set (xss ! k) \<inter> set (concat (drop (Suc k) xss)) = {}"
proof -
  have "xss = take k xss @ (xss ! k # drop (Suc k) xss)"
    using assms(2) by (simp add: id_take_nth_drop[symmetric])
  then have "distinct (concat (take k xss) @ xss ! k @ concat (drop (Suc k) xss))"
    using assms(1) by (metis concat.simps(2) concat_append)
  then show "distinct (xss ! k)"
    and "set (xss ! k) \<inter> set (concat (take k xss)) = {}"
    and "set (xss ! k) \<inter> set (concat (drop (Suc k) xss)) = {}"
    by auto
qed

lemma update_color_rule:
  assumes "update_color R clamped J adj \<beta> edh nodes (sp, g) = Inr (sp', g')"
    and "distinct nodes"
    and "free = filter (\<lambda>x. x \<notin> dom clamped) nodes" and "i < length free"
  shows "\<exists>ns dh. adj (free ! i) = Some ns \<and> edh (free ! i) = Some dh
    \<and> sp' (free ! i)
        = (if accepts \<beta>
                (dh + - 2 * (spin_of sp (free ! i)
                               * (\<Sum>u\<leftarrow>ns. coupling J (free ! i) u * spin_of sp u)))
                (uniform_draws R g (length free) ! i)
           then map_option (\<lambda>s. s * - 1) (sp (free ! i)) else sp (free ! i))"
proof -
  let ?us = "uniform_draws R g (length free)"
  let ?v = "free ! i"
  from assms(1) obtain edJ where
    eJ: "energy_diff_J_loop J adj sp nodes Map.empty = Inr edJ"
    and m: "metropolis_loop R \<beta> edh edJ free (sp, g) = Inr (sp', g')"
    unfolding assms(3) by (auto simp: update_color_def and_then_Inr_iff)
  have df: "distinct free" unfolding assms(3) using assms(2) by simp
  have len: "length free = length ?us" by (simp add: length_uniform_draws)
  have mz: "map_of (zip free ?us) ?v = Some (?us ! i)"
    using len df assms(4) by (simp add: map_of_zip_nth)
  have vin: "?v \<in> set nodes"
    using nth_mem[OF assms(4)] unfolding assms(3) by simp
  from energy_diff_J_loop_value[OF eJ] vin obtain ns e where
    ns: "adj ?v = Some ns" and e: "ediff_loop J sp ?v ns 0 = Inr e"
    and dJ: "edJ ?v = Some (- 2 * e)" by blast
  from ediff_loop_value[OF e]
  have ev: "e = spin_of sp ?v * (\<Sum>u\<leftarrow>ns. coupling J ?v u * spin_of sp u)" by simp
  from metropolis_loop_batch[OF m df]
  have res: "sp' = batch_result \<beta> edh edJ (zip free ?us) sp"
    and needs: "\<forall>p \<in> set (zip free ?us). \<exists>dh dJ. edh (fst p) = Some dh \<and> edJ (fst p) = Some dJ
             \<and> (accepts \<beta> (dh + dJ) (snd p) \<longrightarrow> fst p \<in> dom sp)"
    by blast+
  have "(?v, ?us ! i) \<in> set (zip free ?us)"
    using assms(4) len by (metis in_set_zip fst_conv snd_conv)
  with needs obtain dh where dh: "edh ?v = Some dh" by force
  have "sp' ?v = (if accepts \<beta> (dh + - 2 * e) (?us ! i)
           then map_option (\<lambda>s. s * - 1) (sp ?v) else sp ?v)"
    unfolding res by (simp add: batch_result_def mz dh dJ)
  with ns dh show ?thesis unfolding ev by blast
qed

subsection \<open>Neighbours in the adjacency\<close>

lemma add_edges_step_neighbours:
  assumes "adj n0 = Some s0" and "(adj(n0 \<mapsto> List.insert n1 s0)) n1 = Some s1"
  shows "\<exists>na nb. (adj(n0 \<mapsto> List.insert n1 s0, n1 \<mapsto> List.insert n0 s1)) n0 = Some na
    \<and> n1 \<in> set na
    \<and> (adj(n0 \<mapsto> List.insert n1 s0, n1 \<mapsto> List.insert n0 s1)) n1 = Some nb \<and> n0 \<in> set nb"
proof (cases "n1 = n0")
  case True
  with assms(2) have "s1 = List.insert n0 s0" by simp
  with True show ?thesis by simp
next
  case False
  then show ?thesis by simp
qed

lemma add_edges_step_grows:
  assumes "adj n0 = Some s0" and "(adj(n0 \<mapsto> List.insert n1 s0)) n1 = Some s1"
    and "adj x = Some ns0"
  shows "\<exists>ns. (adj(n0 \<mapsto> List.insert n1 s0, n1 \<mapsto> List.insert n0 s1)) x = Some ns
    \<and> set ns0 \<subseteq> set ns"
proof -
  consider "x = n1" "n1 = n0" | "x = n1" "n1 \<noteq> n0" | "x \<noteq> n1" "x = n0" | "x \<noteq> n1" "x \<noteq> n0"
    by blast
  then show ?thesis
  proof cases
    case 1
    with assms have "s1 = List.insert n0 s0" "ns0 = s0" by simp_all
    with 1 show ?thesis by auto
  next
    case 2
    with assms have "s1 = ns0" by simp
    with 2 show ?thesis by auto
  next
    case 3
    with assms have "ns0 = s0" by simp
    with 3 show ?thesis by auto
  next
    case 4
    with assms show ?thesis by simp
  qed
qed

lemma add_edges_grows:
  "add_edges es adj0 = Inr adj \<Longrightarrow> adj0 x = Some ns0 \<Longrightarrow>
     \<exists>ns. adj x = Some ns \<and> set ns0 \<subseteq> set ns"
proof (induction es arbitrary: adj0 ns0)
  case Nil
  then show ?case by simp
next
  case (Cons e es)
  obtain n0 n1 where e: "e = (n0, n1)" by (cases e)
  from Cons.prems(1) obtain s0 s1 where s0: "adj0 n0 = Some s0"
    and s1: "(adj0(n0 \<mapsto> List.insert n1 s0)) n1 = Some s1"
    and r: "add_edges es (adj0(n0 \<mapsto> List.insert n1 s0, n1 \<mapsto> List.insert n0 s1)) = Inr adj"
    unfolding e by (auto simp: and_then_Inr_iff lookup_Inr_iff Let_def)
  from add_edges_step_grows[of adj0 n0 s0 n1 s1 x ns0, OF s0 s1 Cons.prems(2)]
  obtain ns1 where
    a: "(adj0(n0 \<mapsto> List.insert n1 s0, n1 \<mapsto> List.insert n0 s1)) x = Some ns1"
    and b: "set ns0 \<subseteq> set ns1" by blast
  have "\<exists>ns. adj x = Some ns \<and> set ns1 \<subseteq> set ns"
    using r a by (rule Cons.IH)
  with b show ?case by blast
qed

lemma add_edges_neighbours:
  "add_edges es adj0 = Inr adj \<Longrightarrow> (a, b) \<in> set es \<Longrightarrow>
     \<exists>na nb. adj a = Some na \<and> b \<in> set na \<and> adj b = Some nb \<and> a \<in> set nb"
proof (induction es arbitrary: adj0)
  case Nil
  then show ?case by simp
next
  case (Cons e es)
  obtain n0 n1 where e: "e = (n0, n1)" by (cases e)
  from Cons.prems(1) obtain s0 s1 where s0: "adj0 n0 = Some s0"
    and s1: "(adj0(n0 \<mapsto> List.insert n1 s0)) n1 = Some s1"
    and r: "add_edges es (adj0(n0 \<mapsto> List.insert n1 s0, n1 \<mapsto> List.insert n0 s1)) = Inr adj"
    unfolding e by (auto simp: and_then_Inr_iff lookup_Inr_iff Let_def)
  show ?case
  proof (cases "(a, b) = (n0, n1)")
    case True
    from add_edges_step_neighbours[of adj0 n0 s0 n1 s1, OF s0 s1] obtain na nb where
      na: "(adj0(n0 \<mapsto> List.insert n1 s0, n1 \<mapsto> List.insert n0 s1)) n0 = Some na" "n1 \<in> set na"
      and nb: "(adj0(n0 \<mapsto> List.insert n1 s0, n1 \<mapsto> List.insert n0 s1)) n1 = Some nb" "n0 \<in> set nb"
      by blast
    from add_edges_grows[OF r na(1)] na(2) add_edges_grows[OF r nb(1)] nb(2) True
    show ?thesis by blast
  next
    case False
    with Cons.prems(2) e have "(a, b) \<in> set es" by auto
    with r show ?thesis by (rule Cons.IH)
  qed
qed

subsection \<open>Generators with the same draws\<close>

lemma same_drawsD:
  assumes "same_draws R1 R2 Rel" and "Rel a b"
  shows "fst (choice R1 a) = fst (choice R2 b)" and "Rel (snd (choice R1 a)) (snd (choice R2 b))"
    and "fst (uniform R1 a) = fst (uniform R2 b)"
    and "Rel (snd (uniform R1 a)) (snd (uniform R2 b))"
  using assms unfolding same_draws_def by blast+

lemma and_then_rel:
  assumes "rel_sum (=) A m1 m2"
    and "\<And>x y. A x y \<Longrightarrow> rel_sum (=) B (f1 x) (f2 y)"
  shows "rel_sum (=) B (and_then m1 f1) (and_then m2 f2)"
  using assms by (cases m1; cases m2) simp_all

lemma init_spins_Cons:
  "init_spins R clamped (v # vs) sp g =
     (case clamped v of
        None \<Rightarrow> init_spins R clamped vs
                 (sp(v \<mapsto> (if fst (choice R g) then 1 else - 1))) (snd (choice R g))
      | Some c \<Rightarrow> init_spins R clamped vs (sp(v \<mapsto> c)) g)"
  by (simp split: prod.splits option.splits)

lemma init_spins_rel:
  assumes "same_draws R1 R2 Rel"
  shows "Rel g1 g2 \<Longrightarrow>
    rel_prod (=) Rel (init_spins R1 clamped vs sp g1) (init_spins R2 clamped vs sp g2)"
proof (induction vs arbitrary: sp g1 g2)
  case Nil
  then show ?case by simp
next
  case (Cons v vs)
  show ?case
  proof (cases "clamped v")
    case None
    note d = same_drawsD[OF assms Cons.prems]
    have "rel_prod (=) Rel
        (init_spins R1 clamped vs (sp(v \<mapsto> (if fst (choice R2 g2) then 1 else - 1)))
           (snd (choice R1 g1)))
        (init_spins R2 clamped vs (sp(v \<mapsto> (if fst (choice R2 g2) then 1 else - 1)))
           (snd (choice R2 g2)))"
      using d(2) by (rule Cons.IH)
    then show ?thesis unfolding init_spins_Cons None d(1) by simp
  next
    case (Some c)
    have "rel_prod (=) Rel (init_spins R1 clamped vs (sp(v \<mapsto> c)) g1)
        (init_spins R2 clamped vs (sp(v \<mapsto> c)) g2)"
      using Cons.prems by (rule Cons.IH)
    then show ?thesis unfolding init_spins_Cons Some by simp
  qed
qed

lemma metropolis_loop_Cons:
  "metropolis_loop R \<beta> edh edJ (v # vs) (sp, g) =
     and_then (lookup edh v) (\<lambda>dh.
       and_then (lookup edJ v) (\<lambda>dJ.
         if accepts \<beta> (dh + dJ) (fst (uniform R g))
         then and_then (lookup sp v) (\<lambda>s.
                metropolis_loop R \<beta> edh edJ vs (sp(v \<mapsto> s * - 1), snd (uniform R g)))
         else metropolis_loop R \<beta> edh edJ vs (sp, snd (uniform R g))))"
  by (cases "uniform R g") (simp cong: if_cong)

lemma metropolis_loop_rel:
  assumes "same_draws R1 R2 Rel"
  shows "Rel g1 g2 \<Longrightarrow>
    rel_sum (=) (rel_prod (=) Rel)
      (metropolis_loop R1 \<beta> edh edJ vs (sp, g1)) (metropolis_loop R2 \<beta> edh edJ vs (sp, g2))"
proof (induction vs arbitrary: sp g1 g2)
  case Nil
  then show ?case by simp
next
  case (Cons v vs)
  note d = same_drawsD[OF assms Cons.prems]
  have ih: "rel_sum (=) (rel_prod (=) Rel)
      (metropolis_loop R1 \<beta> edh edJ vs (sp', snd (uniform R1 g1)))
      (metropolis_loop R2 \<beta> edh edJ vs (sp', snd (uniform R2 g2)))" for sp'
    using d(4) by (rule Cons.IH)
  show ?case
    unfolding metropolis_loop_Cons d(3)
    by (cases "edh v"; cases "edJ v"; cases "sp v") (simp_all add: lookup_def ih)
qed

lemma update_color_rel:
  assumes "same_draws R1 R2 Rel" and "rel_prod (=) Rel st1 st2"
  shows "rel_sum (=) (rel_prod (=) Rel)
      (update_color R1 clamped J adj \<beta> edh nodes st1)
      (update_color R2 clamped J adj \<beta> edh nodes st2)"
proof -
  obtain sp g1 where s1: "st1 = (sp, g1)" by (cases st1)
  with assms(2) obtain g2 where s2: "st2 = (sp, g2)" and r: "Rel g1 g2"
    by (cases st2) simp
  show ?thesis
    unfolding s1 s2 update_color_def
    by (cases "energy_diff_J_loop J adj sp nodes Map.empty")
      (simp_all add: metropolis_loop_rel[OF assms(1) r])
qed

lemma colors_loop_rel:
  assumes "same_draws R1 R2 Rel"
  shows "rel_prod (=) Rel st1 st2 \<Longrightarrow>
    rel_sum (=) (rel_prod (=) Rel)
      (colors_loop R1 clamped J adj \<beta> edh cs st1) (colors_loop R2 clamped J adj \<beta> edh cs st2)"
proof (induction cs arbitrary: st1 st2)
  case Nil
  then show ?case by simp
next
  case (Cons c cs)
  show ?case
    unfolding colors_loop.simps
    by (rule and_then_rel[OF update_color_rel[OF assms Cons.prems]]) (rule Cons.IH)
qed

lemma sweep_rel:
  assumes "same_draws R1 R2 Rel" and "rel_prod (=) Rel st1 st2"
  shows "rel_sum (=) (rel_prod (=) Rel)
      (sweep R1 clamped h J adj colors \<beta> st1) (sweep R2 clamped h J adj colors \<beta> st2)"
proof -
  from assms(2) have f: "fst st1 = fst st2" by (cases st1; cases st2) simp
  show ?thesis
    unfolding sweep_def f
    by (cases "energy_diff_h h (fst st2)") (simp_all add: colors_loop_rel[OF assms])
qed

lemma sweeps_rel:
  assumes "same_draws R1 R2 Rel"
  shows "rel_prod (=) Rel st1 st2 \<Longrightarrow>
    rel_sum (=) (rel_prod (=) Rel)
      (sweeps R1 clamped h J adj colors schedule st1)
      (sweeps R2 clamped h J adj colors schedule st2)"
proof (induction schedule arbitrary: st1 st2)
  case Nil
  then show ?case by simp
next
  case (Cons b bs)
  show ?case
    unfolding sweeps.simps
    by (rule and_then_rel[OF sweep_rel[OF assms Cons.prems]]) (rule Cons.IH)
qed

subsection \<open>The concrete model, evaluated\<close>

lemma example_run:
  "sample counter_source example_coloring example_h example_J clamped_spins [1, 1 / 2] 0
     = Inr [0 \<mapsto> - 1, 2 \<mapsto> - 1, 1 \<mapsto> - 1]"
  by (simp add: run_defs)

lemma beta_nth: "i < 1000 \<Longrightarrow> \<beta>s ! i = 1 - real i / 999"
  by (simp add: \<beta>s_def num_sweeps_def)

lemma beta_len: "length \<beta>s = 1000"
  by (simp add: \<beta>s_def num_sweeps_def)

lemma example_colours_within: "colours_within example_coloring (fst ` set example_h)"
  by (simp add: colours_within_def example_coloring_def example_h_def)

lemma example_adj_built: "add_edges (map fst example_J) (empty_adj example_h) = Inr example_adj"
  by (simp add: run_defs example_adj_def)

lemma example_edh_built: "energy_diff_h example_h example_spins = Inr example_edh"
  by (simp add: run_defs example_spins_def example_edh_def)

lemma example_class_update:
  "update_color counter_source Map.empty example_J example_adj 1 example_edh [0, 2]
     (example_spins, 0) = Inr (example_spins(2 \<mapsto> 1), 2)"
  by (simp add: run_defs example_adj_def example_spins_def example_edh_def)

lemma example_sweep:
  "sweep counter_source clamped_spins example_h example_J example_adj [[0, 2], [1]] 1
     (example_spins, 2) = Inr (example_spins(2 \<mapsto> 1), 4)"
  by (simp add: run_defs example_adj_def example_spins_def)

lemma example_adj2_built:
  "add_edges (map fst example_J2) (empty_adj example_h) = Inr example_adj2"
  by (simp add: run_defs example_J2_def example_adj2_def)

lemma example_edJ2:
  "energy_diff_J_loop example_J2 example_adj2 example_spins [1] Map.empty = Inr [1 \<mapsto> 3 / 2]"
  by (simp add: run_defs example_J2_def example_adj2_def example_spins_def)

lemma offset_same_draws: "same_draws counter_source offset_source offset_rel"
  by (simp add: same_draws_def counter_source_def offset_source_def offset_rel_def)

section \<open>The claims\<close>

subsection \<open>Claim C1\<close>

text \<open>
  C1, as amended. In a sweep over colour classes that share no node, take the non-clamped
  node \<open>v\<close> at position \<open>i\<close> of class \<open>k\<close>, and let \<open>(sp, g)\<close> be the state when the
  update of that class starts. Then \<open>v\<close> still has the spin \<open>s\<close> it had when the sweep
  started, and after the sweep its spin is \<open>s * -1\<close> exactly when
  \<open>log U < - \<beta> * \<Delta>E\<close> and \<open>s\<close> otherwise, where \<open>U\<close> is the draw number \<open>i\<close> of that
  class and
  \<open>\<Delta>E = - (2 * s * h v + 2 * s * (\<Sum>w\<leftarrow>adj v. coupling J v w * spin w))\<close>,
  with the spins of the neighbours read from \<open>sp\<close> and \<open>coupling J v w\<close> the sum of the
  entries of \<open>J\<close> under \<open>(v, w)\<close> and \<open>(w, v)\<close>, an absent entry counting 0. The energy
  difference is that of the energy \<open>\<Sum> h s + \<Sum> J s s\<close>: the sign is the opposite of the
  one the specification writes.
\<close>

theorem metropolis_rule_in_sweep:
  assumes "sweep R clamped h J adj colors \<beta> (sp0, g0) = Inr (spN, gN)"
    and "distinct (concat colors)" and "k < length colors"
    and "free = filter (\<lambda>x. x \<notin> dom clamped) (colors ! k)" and "i < length free"
    and "v = free ! i"
  shows "\<exists>edh sp g s hv ns.
      energy_diff_h h sp0 = Inr edh
    \<and> colors_loop R clamped J adj \<beta> edh (take k colors) (sp0, g0) = Inr (sp, g)
    \<and> sp0 v = Some s \<and> sp v = Some s \<and> map_of h v = Some hv \<and> adj v = Some ns
    \<and> spN v = Some
        (if logp_less (np_log (uniform_draws R g (length free) ! i))
              (- \<beta> * - (2 * real_of_int s * hv
                          + 2 * real_of_int s * (\<Sum>w\<leftarrow>ns. coupling J v w * spin_of sp w)))
         then s * - 1 else s)"
proof -
  from assms(1) obtain edh where
    eh: "energy_diff_h h sp0 = Inr edh"
    and cl: "colors_loop R clamped J adj \<beta> edh colors (sp0, g0) = Inr (spN, gN)"
    by (auto simp: sweep_def and_then_Inr_iff)
  from colors_loop_split[OF cl assms(3)] obtain sp g sp' g' where
    pre: "colors_loop R clamped J adj \<beta> edh (take k colors) (sp0, g0) = Inr (sp, g)"
    and upd: "update_color R clamped J adj \<beta> edh (colors ! k) (sp, g) = Inr (sp', g')"
    and post: "colors_loop R clamped J adj \<beta> edh (drop (Suc k) colors) (sp', g') = Inr (spN, gN)"
    by (metis surj_pair)
  note dc = distinct_concat_nth[OF assms(2,3)]
  have vin: "v \<in> set (colors ! k)"
    using nth_mem[OF assms(5)] unfolding assms(4,6) by simp
  have "v \<notin> set (concat (take k colors))" using vin dc(2) by blast
  with colors_loop_frame[OF pre] have same0: "sp v = sp0 v" by blast
  have "v \<notin> set (concat (drop (Suc k) colors))" using vin dc(3) by blast
  with colors_loop_frame[OF post] have sameN: "spN v = sp' v" by blast
  from update_color_rule[OF upd dc(1) assms(4,5)] obtain ns dh where
    ns: "adj v = Some ns" and dh: "edh v = Some dh"
    and r: "sp' v
        = (if accepts \<beta>
                (dh + - 2 * (spin_of sp v * (\<Sum>u\<leftarrow>ns. coupling J v u * spin_of sp u)))
                (uniform_draws R g (length free) ! i)
           then map_option (\<lambda>s. s * - 1) (sp v) else sp v)"
    unfolding assms(6) by blast
  from energy_diff_h_value[OF eh dh] obtain s hv where
    s: "sp0 v = Some s" and hv: "map_of h v = Some hv" and dhv: "dh = - 2 * real_of_int s * hv"
    by blast
  from s same0 have s': "sp v = Some s" by simp
  have so: "spin_of sp v = real_of_int s" by (simp add: spin_of_def s')
  have "- 1 * \<beta> * (dh + - 2 * (spin_of sp v * (\<Sum>u\<leftarrow>ns. coupling J v u * spin_of sp u)))
      = - \<beta> * - (2 * real_of_int s * hv
                  + 2 * real_of_int s * (\<Sum>w\<leftarrow>ns. coupling J v w * spin_of sp w))"
    unfolding dhv so by (simp add: algebra_simps)
  then have acc: "accepts \<beta>
                (dh + - 2 * (spin_of sp v * (\<Sum>u\<leftarrow>ns. coupling J v u * spin_of sp u)))
                (uniform_draws R g (length free) ! i)
      = logp_less (np_log (uniform_draws R g (length free) ! i))
              (- \<beta> * - (2 * real_of_int s * hv
                          + 2 * real_of_int s * (\<Sum>w\<leftarrow>ns. coupling J v w * spin_of sp w)))"
    unfolding accepts_def by (rule arg_cong)
  have "spN v = Some
        (if logp_less (np_log (uniform_draws R g (length free) ! i))
              (- \<beta> * - (2 * real_of_int s * hv
                          + 2 * real_of_int s * (\<Sum>w\<leftarrow>ns. coupling J v w * spin_of sp w)))
         then s * - 1 else s)"
    unfolding sameN r acc s' by simp
  with eh pre s s' hv ns show ?thesis by blast
qed

theorem metropolis_rule_in_sweep_witness:
  "sweep counter_source clamped_spins example_h example_J example_adj [[0, 2], [1]] 1
     (example_spins, 2) = Inr (example_spins(2 \<mapsto> 1), 4)
   \<and> distinct (concat [[0, 2], [1 :: node]]) \<and> (0 :: nat) < length [[0, 2], [1 :: node]]
   \<and> (0 :: nat) < length (filter (\<lambda>x. x \<notin> dom clamped_spins) ([[0, 2], [1]] ! 0))
   \<and> (2 :: node) = filter (\<lambda>x. x \<notin> dom clamped_spins) ([[0, 2], [1]] ! 0) ! 0
   \<and> (\<exists>edh sp g s hv ns.
        energy_diff_h example_h example_spins = Inr edh
      \<and> colors_loop counter_source clamped_spins example_J example_adj 1 edh
            (take 0 [[0, 2], [1]]) (example_spins, 2) = Inr (sp, g)
      \<and> example_spins 2 = Some s \<and> sp 2 = Some s \<and> map_of example_h 2 = Some hv
      \<and> example_adj 2 = Some ns
      \<and> (example_spins(2 \<mapsto> 1)) 2 = Some
          (if logp_less
                (np_log (uniform_draws counter_source g
                   (length (filter (\<lambda>x. x \<notin> dom clamped_spins) ([[0, 2], [1]] ! 0))) ! 0))
                (- 1 * - (2 * real_of_int s * hv
                          + 2 * real_of_int s * (\<Sum>w\<leftarrow>ns. coupling example_J 2 w * spin_of sp w)))
           then s * - 1 else s))"
proof -
  have d: "distinct (concat [[0, 2], [1 :: node]])" by simp
  have k: "(0 :: nat) < length [[0, 2], [1 :: node]]" by simp
  have i: "(0 :: nat) < length (filter (\<lambda>x. x \<notin> dom clamped_spins) ([[0, 2], [1]] ! 0))"
    by (simp add: clamped_spins_def)
  have v: "(2 :: node) = filter (\<lambda>x. x \<notin> dom clamped_spins) ([[0, 2], [1]] ! 0) ! 0"
    by (simp add: clamped_spins_def)
  note r = metropolis_rule_in_sweep[OF example_sweep d k refl i v]
  from example_sweep d k i v r show ?thesis by (intro conjI)
qed

text \<open>
  The specification's sign fails on the example: node 2 has spin \<open>-1\<close>, bias \<open>-3/2\<close> and
  the neighbour 1 with spin 1 and coupling \<open>-1/2\<close>, so the specification's energy
  difference is 4 and \<open>log U = -3\<close> is not below \<open>-4\<close>; the cell flips the node.
\<close>

theorem specified_sign_rejects_but_cell_flips:
  "sweep counter_source clamped_spins example_h example_J example_adj [[0, 2], [1]] 1
     (example_spins, 2) = Inr (example_spins(2 \<mapsto> 1), 4)
   \<and> example_spins 2 = Some (- 1) \<and> (example_spins(2 \<mapsto> 1)) 2 = Some (- 1 * - 1)
   \<and> map_of example_h 2 = Some (- 3 / 2) \<and> example_adj 2 = Some [1]
   \<and> fst (uniform counter_source 2) = exp (- 3)
   \<and> \<not> logp_less (np_log (exp (- 3)))
         (- 1 * (2 * real_of_int (- 1) * (- 3 / 2)
                 + 2 * real_of_int (- 1) * (coupling example_J 2 1 * spin_of example_spins 1)))"
  by (simp add: example_sweep)
    (simp add: example_spins_def example_h_def example_adj_def example_J_def counter_source_def
      coupling_def spin_of_def np_log_def)

subsection \<open>Claim C2\<close>

text \<open>
  C2. Every node of \<open>h\<close> that the clamped map names has its clamped value in the
  returned assignment, for every generator, every colouring and every schedule; and no
  sweep, from any state, changes the spin of a clamped node.
\<close>

theorem clamped_nodes_kept:
  assumes "sample R greedy_coloring h J clamped schedule g = Inr sp"
    and "v \<in> fst ` set h" and "clamped v = Some c"
  shows "sp v = Some c
    \<and> (\<forall>adj colors \<beta> sp1 g1 sp2 g2.
          sweep R clamped h J adj colors \<beta> (sp1, g1) = Inr (sp2, g2) \<longrightarrow> sp2 v = sp1 v)"
proof -
  let ?init = "init_spins R clamped (map fst h) Map.empty g"
  from assms(1) obtain adj st where
    sw: "sweeps R clamped h J adj (greedy_coloring adj) schedule ?init = Inr st"
    and sp: "sp = fst st"
    by (auto simp: sample_def and_then_Inr_iff)
  have "keeps_clamped clamped (fst ?init)"
    by (rule init_spins_clamped) (simp add: keeps_clamped_def)
  moreover have "v \<in> dom (fst ?init)"
    using assms(2) by (simp add: init_spins_dom)
  ultimately have i: "fst ?init v = Some c"
    using assms(3) unfolding keeps_clamped_def by blast
  from sw have "sweeps R clamped h J adj (greedy_coloring adj) schedule (fst ?init, snd ?init)
      = Inr (fst st, snd st)" by simp
  from sweeps_frame[OF this] assms(3) have "fst st v = fst ?init v" by blast
  with i sp have first: "sp v = Some c" by simp
  have "sp2 v = sp1 v"
    if "sweep R clamped h J adj colors \<beta> (sp1, g1) = Inr (sp2, g2)"
    for adj colors \<beta> sp1 g1 sp2 g2
    using sweep_frame[OF that] assms(3) by blast
  with first show ?thesis by (intro conjI allI impI)
qed

theorem clamped_nodes_kept_witness:
  "sample counter_source example_coloring example_h example_J clamped_spins [1, 1 / 2] 0
     = Inr [0 \<mapsto> - 1, 2 \<mapsto> - 1, 1 \<mapsto> - 1]
   \<and> (0::int) \<in> fst ` set example_h \<and> clamped_spins 0 = Some (- 1)
   \<and> [0 \<mapsto> - 1, 2 \<mapsto> - 1, 1 \<mapsto> (- 1::int)] (0::int) = Some (- 1)"
proof -
  have m: "(0::int) \<in> fst ` set example_h" by (simp add: example_h_def)
  have c: "clamped_spins 0 = Some (- 1)" by (simp add: clamped_spins_def)
  have r: "[0 \<mapsto> - 1, 2 \<mapsto> - 1, 1 \<mapsto> (- 1::int)] (0::int) = Some (- 1)"
    by (rule conjunct1[OF clamped_nodes_kept[where v = 0 and c = "- 1", OF example_run m c]])
  show ?thesis using example_run m c r by (intro conjI)
qed

subsection \<open>Claim C3\<close>

text \<open>
  C3, as amended. The cell validates nothing itself. It fails exactly when a coupling names
  a node that is not a key of \<open>h\<close>: the lookup in the adjacency dictionary raises
  \<open>KeyError\<close> while the adjacency is built, before the spins are initialised and before
  any sweep. Clamped entries and the schedule never make it fail. The colouring is assumed
  to return only nodes of the adjacency it is given.
\<close>

theorem sample_fails_iff_coupling_node_unknown:
  assumes "colours_within greedy_coloring (fst ` set h)"
  shows "(sample R greedy_coloring h J clamped schedule g = Inl e
            \<longleftrightarrow> add_edges (map fst J) (empty_adj h) = Inl e)
    \<and> ((\<exists>e. sample R greedy_coloring h J clamped schedule g = Inl e)
            \<longleftrightarrow> \<not> couplings_known h J)"
proof -
  let ?build = "add_edges (map fst J) (empty_adj h)"
  have ok: "\<exists>sp. sample R greedy_coloring h J clamped schedule g = Inr sp"
    if "?build = Inr adj" for adj
  proof -
    from add_edges_Inr_props(1,2)[OF empty_adj_closed that]
    have "dom adj = fst ` set h" and "closed_adj adj" by (simp_all add: empty_adj_dom)
    from sample_ok[OF assms that this] show ?thesis .
  qed
  have a: "sample R greedy_coloring h J clamped schedule g = Inl e \<longleftrightarrow> ?build = Inl e"
    for e
  proof (cases ?build)
    case (Inl x)
    then show ?thesis by (simp add: sample_def)
  next
    case (Inr adj)
    with ok[OF Inr] show ?thesis by auto
  qed
  have b: "(\<exists>e. ?build = Inl e)
      \<longleftrightarrow> (\<exists>k \<in> set (map fst J). fst k \<notin> fst ` set h \<or> snd k \<notin> fst ` set h)"
  proof
    assume "\<exists>e. ?build = Inl e"
    then obtain e where e: "?build = Inl e" ..
    show "\<exists>k \<in> set (map fst J). fst k \<notin> fst ` set h \<or> snd k \<notin> fst ` set h"
    proof (rule ccontr)
      assume "\<not> ?thesis"
      then have "\<forall>k \<in> set (map fst J). fst k \<in> dom (empty_adj h) \<and> snd k \<in> dom (empty_adj h)"
        unfolding empty_adj_dom by blast
      from add_edges_known[OF empty_adj_closed this] e show False by simp
    qed
  next
    assume "\<exists>k \<in> set (map fst J). fst k \<notin> fst ` set h \<or> snd k \<notin> fst ` set h"
    then have "\<exists>k \<in> set (map fst J). fst k \<notin> dom (empty_adj h) \<or> snd k \<notin> dom (empty_adj h)"
      unfolding empty_adj_dom .
    from add_edges_unknown[OF empty_adj_closed this] show "\<exists>e. ?build = Inl e" .
  qed
  have c: "(\<exists>k \<in> set (map fst J). fst k \<notin> fst ` set h \<or> snd k \<notin> fst ` set h)
      \<longleftrightarrow> \<not> couplings_known h J"
    unfolding couplings_known_def by blast
  show ?thesis unfolding a b c by simp
qed

theorem sample_fails_iff_coupling_node_unknown_witness:
  "colours_within example_coloring (fst ` set example_h)
   \<and> add_edges (map fst [((0, 5), 1 :: real)]) (empty_adj example_h) = Inl (KeyError 5)
   \<and> sample counter_source example_coloring example_h [((0, 5), 1)] clamped_spins [1] 0
       = Inl (KeyError 5)"
proof -
  have b: "add_edges (map fst [((0, 5), 1 :: real)]) (empty_adj example_h) = Inl (KeyError 5)"
    by (simp add: empty_adj_def example_h_def lookup_def)
  from sample_fails_iff_coupling_node_unknown[OF example_colours_within,
      of counter_source "[((0, 5), 1)]" clamped_spins "[1]" 0 "KeyError 5"]
  have "sample counter_source example_coloring example_h [((0, 5), 1)] clamped_spins [1] 0
          = Inl (KeyError 5)
      \<longleftrightarrow> add_edges (map fst [((0, 5), 1 :: real)]) (empty_adj example_h) = Inl (KeyError 5)"
    by (rule conjunct1)
  with b have "sample counter_source example_coloring example_h [((0, 5), 1)] clamped_spins [1] 0
          = Inl (KeyError 5)" by (rule iffD2[rotated])
  with example_colours_within b show ?thesis by (intro conjI)
qed

text \<open>
  Three inputs that the specification calls malformed and on which the cell returns an
  assignment: an empty schedule, a clamped value 5, and a clamped node 7 that is not a key
  of \<open>h\<close>.
\<close>

theorem malformed_inputs_return:
  "sample counter_source example_coloring example_h example_J clamped_spins [] 0
     = Inr [0 \<mapsto> - 1, 1 \<mapsto> 1, 2 \<mapsto> - 1]
   \<and> sample counter_source example_coloring example_h example_J [0 \<mapsto> 5, 7 \<mapsto> 1] [1] 0
     = Inr [0 \<mapsto> 5, 2 \<mapsto> 1, 1 \<mapsto> - 1]"
  by (simp add: run_defs)

subsection \<open>Claim C4\<close>

text \<open>
  C4. When no two different nodes of a colour class are adjacent, the update of the class
  as the cell performs it (every energy difference computed from the spins at the start of
  the class, then the accepted flips applied) gives the assignment that the per-node
  updates give when applied one after another, each computing its energy difference from
  the current spins, in any order of the non-clamped nodes of the class, each node with
  the draw the cell gave it. The bias parts \<open>edh\<close> are those of the start of the sweep,
  \<open>sp0\<close>, and the nodes of the class have not changed since.
\<close>

theorem batch_equals_sequential:
  assumes "update_color R clamped J adj \<beta> edh nodes (sp, g) = Inr (sp', g')"
    and "distinct nodes" and "independent adj nodes"
    and "free = filter (\<lambda>x. x \<notin> dom clamped) nodes"
    and "mset order = mset (zip free (uniform_draws R g (length free)))"
    and "energy_diff_h h sp0 = Inr edh" and "\<forall>v \<in> set nodes. sp0 v = sp v"
  shows "sequential_updates h J adj \<beta> order sp = Inr sp'"
proof -
  let ?ps = "zip free (uniform_draws R g (length free))"
  from assms(1) obtain edJ where
    eJ: "energy_diff_J_loop J adj sp nodes Map.empty = Inr edJ"
    and m: "metropolis_loop R \<beta> edh edJ free (sp, g) = Inr (sp', g')"
    unfolding assms(4) by (auto simp: update_color_def and_then_Inr_iff)
  have df: "distinct free" unfolding assms(4) using assms(2) by simp
  have fst_ps: "map fst ?ps = free" by (simp add: length_uniform_draws)
  from metropolis_loop_batch[OF m df]
  have res: "sp' = batch_result \<beta> edh edJ ?ps sp"
    and needs: "\<forall>p \<in> set ?ps. \<exists>dh dJ. edh (fst p) = Some dh \<and> edJ (fst p) = Some dJ
             \<and> (accepts \<beta> (dh + dJ) (snd p) \<longrightarrow> fst p \<in> dom sp)"
    by blast+
  from energy_diff_J_loop_value[OF eJ]
  have vals: "\<forall>v \<in> set nodes. \<exists>ns e. adj v = Some ns \<and> ediff_loop J sp v ns 0 = Inr e
         \<and> edJ v = Some (- 2 * e)" by blast
  have so: "set order = set ?ps" using assms(5) by (rule mset_eq_setD)
  have "mset (map fst order) = mset (map fst ?ps)" using assms(5) by (metis mset_map)
  then have "mset (map fst order) = mset free" unfolding fst_ps .
  then have dord: "distinct (map fst order)" using df by (metis mset_eq_imp_distinct_iff)
  have dps: "distinct (map fst ?ps)" unfolding fst_ps by (rule df)
  have mo: "map_of order = map_of ?ps"
    using map_of_inject_set[OF dord dps] so by simp
  have in_nodes: "fst p \<in> set nodes" if "p \<in> set order" for p
  proof -
    from that so have "fst p \<in> set (map fst ?ps)" by force
    then have "fst p \<in> set free" unfolding fst_ps .
    then show ?thesis unfolding assms(4) by simp
  qed
  have pre: "\<forall>p \<in> set order. \<exists>ns e dh. adj (fst p) = Some ns \<and> ediff_loop J sp (fst p) ns 0 = Inr e
         \<and> edJ (fst p) = Some (- 2 * e) \<and> edh (fst p) = Some dh
         \<and> (\<exists>s hv. sp (fst p) = Some s \<and> map_of h (fst p) = Some hv
                \<and> dh = - 2 * real_of_int s * hv)
         \<and> (\<forall>x \<in> insert (fst p) (set ns). sp x = sp x)
         \<and> (\<forall>q \<in> set order. fst q \<noteq> fst p \<longrightarrow> fst q \<notin> set ns)"
  proof
    fix p assume p: "p \<in> set order"
    from vals in_nodes[OF p] obtain ns e where
      a: "adj (fst p) = Some ns" "ediff_loop J sp (fst p) ns 0 = Inr e"
        "edJ (fst p) = Some (- 2 * e)" by blast
    from needs p so obtain dh dJ where
      b: "edh (fst p) = Some dh" "edJ (fst p) = Some dJ"
        "accepts \<beta> (dh + dJ) (snd p) \<longrightarrow> fst p \<in> dom sp" by blast
    from energy_diff_h_value[OF assms(6) b(1)] assms(7) in_nodes[OF p]
    have c: "\<exists>s hv. sp (fst p) = Some s \<and> map_of h (fst p) = Some hv
        \<and> dh = - 2 * real_of_int s * hv" by simp
    have d: "\<forall>q \<in> set order. fst q \<noteq> fst p \<longrightarrow> fst q \<notin> set ns"
    proof (intro ballI impI)
      fix q assume "q \<in> set order" and "fst q \<noteq> fst p"
      with assms(3) in_nodes p a(1) show "fst q \<notin> set ns"
        unfolding independent_def by metis
    qed
    from a b(1) c d
    show "\<exists>ns e dh. adj (fst p) = Some ns \<and> ediff_loop J sp (fst p) ns 0 = Inr e
         \<and> edJ (fst p) = Some (- 2 * e) \<and> edh (fst p) = Some dh
         \<and> (\<exists>s hv. sp (fst p) = Some s \<and> map_of h (fst p) = Some hv
                \<and> dh = - 2 * real_of_int s * hv)
         \<and> (\<forall>x \<in> insert (fst p) (set ns). sp x = sp x)
         \<and> (\<forall>q \<in> set order. fst q \<noteq> fst p \<longrightarrow> fst q \<notin> set ns)"
      by blast
  qed
  have "sequential_updates h J adj \<beta> order sp = Inr (batch_result \<beta> edh edJ order sp)"
    using pre dord by (rule sequential_updates_batch)
  also have "batch_result \<beta> edh edJ order sp = batch_result \<beta> edh edJ ?ps sp"
    by (rule batch_result_map_of[OF mo])
  finally show ?thesis unfolding res .
qed

theorem batch_equals_sequential_witness:
  "update_color counter_source Map.empty example_J example_adj 1 example_edh [0, 2]
     (example_spins, 0) = Inr (example_spins(2 \<mapsto> 1), 2)
   \<and> distinct [0, 2 :: node] \<and> independent example_adj [0, 2]
   \<and> mset [(2 :: node, exp (- 2 :: real)), (0, exp (- 1))]
       = mset (zip [0, 2] (uniform_draws counter_source 0 2))
   \<and> energy_diff_h example_h example_spins = Inr example_edh
   \<and> sequential_updates example_h example_J example_adj 1
         [(2, exp (- 2)), (0, exp (- 1))] example_spins
       = Inr (example_spins(2 \<mapsto> 1))"
proof -
  have d: "distinct [0, 2 :: node]" by simp
  have i: "independent example_adj [0, 2]"
    by (simp add: independent_def example_adj_def)
  have f: "[0, 2] = filter (\<lambda>x. x \<notin> dom (Map.empty :: node \<rightharpoonup> int)) [0, 2]" by simp
  have m: "mset [(2 :: node, exp (- 2 :: real)), (0, exp (- 1))]
       = mset (zip [0, 2] (uniform_draws counter_source 0 (length [0, 2 :: node])))"
    by (simp add: counter_source_def numeral_2_eq_2)
  have a: "\<forall>v \<in> set [0, 2 :: node]. example_spins v = example_spins v" by simp
  have s: "sequential_updates example_h example_J example_adj 1
         [(2, exp (- 2)), (0, exp (- 1))] example_spins
       = Inr (example_spins(2 \<mapsto> 1))"
    by (rule batch_equals_sequential[OF example_class_update d i f m example_edh_built a])
  have m': "mset [(2 :: node, exp (- 2 :: real)), (0, exp (- 1))]
       = mset (zip [0, 2] (uniform_draws counter_source 0 2))"
    by (simp add: counter_source_def numeral_2_eq_2)
  from example_class_update d i m' example_edh_built s show ?thesis by (intro conjI)
qed

subsection \<open>Claim C5\<close>

text \<open>
  C5. The result depends on the generator only through the draws it returns: two
  generators, possibly of different kinds, whose states are related by a relation that
  both kinds of draw preserve while returning equal values, give equal results on equal
  inputs, the error included.
\<close>

theorem same_draws_same_result:
  assumes "same_draws R1 R2 Rel" and "Rel g1 g2"
  shows "sample R1 greedy_coloring h J clamped schedule g1
    = sample R2 greedy_coloring h J clamped schedule g2"
proof (cases "add_edges (map fst J) (empty_adj h)")
  case (Inl e)
  then show ?thesis by (simp add: sample_def)
next
  case (Inr adj)
  let ?i1 = "init_spins R1 clamped (map fst h) Map.empty g1"
  let ?i2 = "init_spins R2 clamped (map fst h) Map.empty g2"
  have "rel_prod (=) Rel ?i1 ?i2" by (rule init_spins_rel[OF assms])
  then have r: "rel_sum (=) (rel_prod (=) Rel)
      (sweeps R1 clamped h J adj (greedy_coloring adj) schedule ?i1)
      (sweeps R2 clamped h J adj (greedy_coloring adj) schedule ?i2)"
    by (rule sweeps_rel[OF assms(1)])
  have "and_then (sweeps R1 clamped h J adj (greedy_coloring adj) schedule ?i1) (\<lambda>st'. Inr (fst st'))
      = and_then (sweeps R2 clamped h J adj (greedy_coloring adj) schedule ?i2) (\<lambda>st'. Inr (fst st'))"
    using r
    by (cases "sweeps R1 clamped h J adj (greedy_coloring adj) schedule ?i1";
        cases "sweeps R2 clamped h J adj (greedy_coloring adj) schedule ?i2")
      (auto simp: rel_prod_sel)
  then show ?thesis by (simp add: sample_def Inr)
qed

theorem same_draws_same_result_witness:
  "same_draws counter_source offset_source offset_rel \<and> offset_rel 0 10
   \<and> sample counter_source example_coloring example_h example_J clamped_spins [1, 1 / 2] 0
       = sample offset_source example_coloring example_h example_J clamped_spins [1, 1 / 2] 10
   \<and> sample offset_source example_coloring example_h example_J clamped_spins [1, 1 / 2] 10
       = Inr [0 \<mapsto> - 1, 2 \<mapsto> - 1, 1 \<mapsto> - 1]"
proof -
  have r: "offset_rel 0 10" by (simp add: offset_rel_def)
  note e = same_draws_same_result[OF offset_same_draws r,
      of example_coloring example_h example_J clamped_spins "[1, 1 / 2]"]
  from e example_run
  have "sample offset_source example_coloring example_h example_J clamped_spins [1, 1 / 2] 10
       = Inr [0 \<mapsto> - 1, 2 \<mapsto> - 1, 1 \<mapsto> - 1]" by simp
  with offset_same_draws r e show ?thesis by (intro conjI)
qed

subsection \<open>Claim C6\<close>

text \<open>
  C6. The cell runs one sweep per entry of the schedule, sweep number \<open>k\<close> with entry
  \<open>k\<close>, and returns the assignment reached after the sweep of the last entry: the result
  is the state after \<open>length schedule\<close> sweeps of \<open>after_sweeps\<close>.
\<close>

theorem one_sweep_per_schedule_entry:
  "sample R greedy_coloring h J clamped schedule g
     = and_then (add_edges (map fst J) (empty_adj h)) (\<lambda>adj.
         and_then
           (after_sweeps R clamped h J adj (greedy_coloring adj) schedule (length schedule)
              (init_spins R clamped (map fst h) Map.empty g))
           (\<lambda>st. Inr (fst st)))"
  by (simp add: sample_def sweeps_after_sweeps)

subsection \<open>Claim C7\<close>

text \<open>
  C7. With \<open>\<beta> \<ge> 0\<close> and an energy difference that is not positive, the acceptance test
  holds for every draw strictly between 0 and 1, a difference of 0 included, and the loop
  flips the node.
\<close>

theorem nonpositive_difference_accepted:
  assumes "0 \<le> \<beta>" and "dh + dJ \<le> 0" and "uniform R g = (u, g')" and "0 < u" and "u < 1"
    and "edh v = Some dh" and "edJ v = Some dJ" and "sp v = Some s"
  shows "accepts \<beta> (dh + dJ) u
    \<and> metropolis_loop R \<beta> edh edJ [v] (sp, g) = Inr (sp(v \<mapsto> s * - 1), g')"
proof -
  have "ln u < 0" using assms(4,5) by simp
  moreover have "0 \<le> - 1 * \<beta> * (dh + dJ)"
    using assms(1,2) by (simp add: mult_nonneg_nonpos)
  ultimately have "ln u < - 1 * \<beta> * (dh + dJ)" by linarith
  then have a: "accepts \<beta> (dh + dJ) u"
    using assms(4) by (simp add: accepts_def np_log_def)
  then show ?thesis
    using assms(3,6,7,8) by (simp add: lookup_def)
qed

theorem nonpositive_difference_accepted_witness:
  "(0::real) \<le> 1 / 2 \<and> (1::real) + - 1 \<le> 0 \<and> uniform counter_source 5 = (exp (- 6), 6)
   \<and> 0 < exp (- 6 :: real) \<and> exp (- 6 :: real) < 1
   \<and> accepts (1 / 2) (1 + - 1) (exp (- 6))
   \<and> metropolis_loop counter_source (1 / 2) [2 \<mapsto> 1] [2 \<mapsto> - 1] [2] ([2 \<mapsto> 1], 5)
       = Inr ([2 \<mapsto> 1 * - 1], 6)"
proof -
  have u: "uniform counter_source 5 = (exp (- 6), 6)" by (simp add: counter_source_def)
  have p: "0 < exp (- 6 :: real)" and l: "exp (- 6 :: real) < 1" by simp_all
  have b: "(0::real) \<le> 1 / 2" and d: "(1::real) + - 1 \<le> 0" by simp_all
  have "accepts (1 / 2) (1 + - 1) (exp (- 6))
    \<and> metropolis_loop counter_source (1 / 2) [2 \<mapsto> 1] [2 \<mapsto> - 1] [2] ([2 \<mapsto> 1], 5)
        = Inr ([2 \<mapsto> 1, 2 \<mapsto> 1 * - 1], 6)"
    by (rule nonpositive_difference_accepted[where v = 2 and s = 1, OF b d u p l]) simp_all
  then show ?thesis using u p l by simp
qed

subsection \<open>Claim C8\<close>

text \<open>
  C8, as amended. The schedule of the notebook has \<open>num_sweeps = 1000\<close> entries, starts at
  1 and decreases strictly; every entry but the last is positive, and the last entry is 0.
\<close>

theorem schedule_shape:
  "length \<beta>s = num_sweeps \<and> num_sweeps = 1000 \<and> \<beta>s ! 0 = 1
   \<and> (\<forall>i j. i < j \<and> j < num_sweeps \<longrightarrow> \<beta>s ! j < \<beta>s ! i)
   \<and> (\<forall>i. i < num_sweeps - 1 \<longrightarrow> 0 < \<beta>s ! i)
   \<and> \<beta>s ! (num_sweeps - 1) = 0"
proof -
  have "\<beta>s ! j < \<beta>s ! i" if "i < j" "j < 1000" for i j
    using that by (simp add: beta_nth divide_strict_right_mono)
  moreover have "0 < \<beta>s ! i" if "i < 999" for i
    using that by (simp add: beta_nth)
  ultimately show ?thesis
    by (simp add: beta_len beta_nth num_sweeps_def)
qed

theorem schedule_shape_witness:
  "(3::nat) < 7 \<and> 7 < num_sweeps \<and> \<beta>s ! 7 < \<beta>s ! 3 \<and> 0 < \<beta>s ! 7"
proof -
  from schedule_shape have a: "\<forall>i j. i < j \<and> j < num_sweeps \<longrightarrow> \<beta>s ! j < \<beta>s ! i"
    and b: "\<forall>i. i < num_sweeps - 1 \<longrightarrow> 0 < \<beta>s ! i" by simp_all
  have c: "(3::nat) < 7 \<and> 7 < num_sweeps" and d: "(7::nat) < num_sweeps - 1"
    by (simp_all add: num_sweeps_def)
  from a c have "\<beta>s ! 7 < \<beta>s ! 3" by (elim allE impE)
  moreover from b d have "0 < \<beta>s ! 7" by (elim allE impE)
  ultimately show ?thesis using c by simp
qed

text \<open>
  The last entry of the schedule is 0, so the schedule has an entry that is not positive.
\<close>

theorem schedule_last_entry_not_positive:
  "num_sweeps - 1 < length \<beta>s \<and> \<not> 0 < \<beta>s ! (num_sweeps - 1)"
  by (simp add: beta_len beta_nth num_sweeps_def)

subsection \<open>Claim C9\<close>

text \<open>
  C9. When every clamped value is \<open>-1\<close> or \<open>1\<close>, every spin is \<open>-1\<close> or \<open>1\<close>
  after initialisation, after every update of a colour class, and in the returned
  assignment, which has a spin for every node of \<open>h\<close>.
\<close>

theorem spins_stay_plus_minus_one:
  assumes "valid_spins clamped"
  shows "valid_spins (fst (init_spins R clamped (map fst h) Map.empty g))
    \<and> dom (fst (init_spins R clamped (map fst h) Map.empty g)) = fst ` set h
    \<and> (\<forall>\<beta> edh nodes sp g1 sp' g'.
          valid_spins sp \<and> update_color R clamped J adj \<beta> edh nodes (sp, g1) = Inr (sp', g')
            \<longrightarrow> valid_spins sp' \<and> dom sp' = dom sp)
    \<and> (\<forall>greedy_coloring schedule sp.
          sample R greedy_coloring h J clamped schedule g = Inr sp
            \<longrightarrow> valid_spins sp \<and> dom sp = fst ` set h)"
proof -
  let ?init = "init_spins R clamped (map fst h) Map.empty g"
  have v0: "valid_spins (fst ?init)"
    using assms by (intro init_spins_valid) (simp_all add: valid_spins_def)
  have d0: "dom (fst ?init) = fst ` set h"
    by (simp add: init_spins_dom)
  have a: "valid_spins sp \<and> dom sp = fst ` set h"
    if "sample R gc h J clamped schedule g = Inr sp" for gc schedule sp
  proof -
    from that obtain adj st where
      "sweeps R clamped h J adj (gc adj) schedule ?init = Inr st" and sp: "sp = fst st"
      by (auto simp: sample_def and_then_Inr_iff)
    then have "sweeps R clamped h J adj (gc adj) schedule (fst ?init, snd ?init)
        = Inr (fst st, snd st)" by simp
    from sweeps_frame[OF this] v0 d0 sp show ?thesis by simp
  qed
  have b: "valid_spins sp' \<and> dom sp' = dom sp"
    if "valid_spins sp \<and> update_color R clamped J adj \<beta> edh nodes (sp, g1) = Inr (sp', g')"
    for \<beta> edh nodes sp g1 sp' g'
  proof -
    from that have u: "update_color R clamped J adj \<beta> edh nodes (sp, g1) = Inr (sp', g')"
      and v: "valid_spins sp" by simp_all
    from update_color_frame(1,3)[OF u] v show ?thesis by simp
  qed
  show ?thesis
  proof (intro conjI)
    show "valid_spins (fst ?init)" by (rule v0)
    show "dom (fst ?init) = fst ` set h" by (rule d0)
    show "\<forall>\<beta> edh nodes sp g1 sp' g'.
          valid_spins sp \<and> update_color R clamped J adj \<beta> edh nodes (sp, g1) = Inr (sp', g')
            \<longrightarrow> valid_spins sp' \<and> dom sp' = dom sp"
      by (intro allI impI) (rule b)
    show "\<forall>greedy_coloring schedule sp.
          sample R greedy_coloring h J clamped schedule g = Inr sp
            \<longrightarrow> valid_spins sp \<and> dom sp = fst ` set h"
      by (intro allI impI) (rule a)
  qed
qed

theorem spins_stay_plus_minus_one_witness:
  "valid_spins clamped_spins
   \<and> sample counter_source example_coloring example_h example_J clamped_spins [1, 1 / 2] 0
       = Inr [0 \<mapsto> - 1, 2 \<mapsto> - 1, 1 \<mapsto> - 1]
   \<and> valid_spins [0 \<mapsto> - 1, 2 \<mapsto> - 1, 1 \<mapsto> - 1]
   \<and> dom [0 \<mapsto> - 1, 2 \<mapsto> - 1, 1 \<mapsto> (- 1::int)] = fst ` set example_h"
proof -
  have c: "valid_spins clamped_spins"
    by (simp add: clamped_spins_def valid_spins_def)
  from spins_stay_plus_minus_one[OF c, of counter_source example_h 0 example_J Map.empty]
  have "\<forall>greedy_coloring schedule sp.
          sample counter_source greedy_coloring example_h example_J clamped_spins schedule 0
            = Inr sp \<longrightarrow> valid_spins sp \<and> dom sp = fst ` set example_h"
    by (elim conjE)
  then have "valid_spins [0 \<mapsto> - 1, 2 \<mapsto> - 1, 1 \<mapsto> - 1]
      \<and> dom [0 \<mapsto> - 1, 2 \<mapsto> - 1, 1 \<mapsto> (- 1::int)] = fst ` set example_h"
    using example_run by (elim allE impE)
  with c example_run show ?thesis by (intro conjI) simp_all
qed

subsection \<open>Claim C10\<close>

text \<open>
  C10. When \<open>J\<close> names known nodes only and has an entry \<open>a\<close> under \<open>(u, v)\<close> and an
  entry \<open>b\<close> under \<open>(v, u)\<close>, the adjacency is built without error and has \<open>u\<close> among
  the neighbours of \<open>v\<close>; the coupling part of the energy difference of \<open>v\<close>, whenever
  the cell computes it, counts the neighbour \<open>u\<close> with \<open>b + a\<close>; and the cell returns
  an assignment, given a colouring that returns only nodes of the adjacency. With \<open>u\<close>
  and \<open>v\<close> exchanged the statement is about the other endpoint.
\<close>

theorem both_directions_add_up:
  assumes "couplings_known h J"
    and "map_of J (u, v) = Some a" and "map_of J (v, u) = Some b"
    and "colours_within greedy_coloring (fst ` set h)"
  shows "\<exists>adj ns. add_edges (map fst J) (empty_adj h) = Inr adj
      \<and> adj v = Some ns \<and> u \<in> set ns \<and> coupling J v u = b + a
      \<and> (\<forall>sp nodes edJ.
            energy_diff_J_loop J adj sp nodes Map.empty = Inr edJ \<and> v \<in> set nodes \<longrightarrow>
            edJ v = Some (- 2 * (spin_of sp v
              * ((b + a) * spin_of sp u
                 + (\<Sum>w\<leftarrow>remove1 u ns. coupling J v w * spin_of sp w)))))
      \<and> (\<exists>sp'. sample R greedy_coloring h J clamped schedule g = Inr sp')"
proof -
  have "\<forall>e \<in> set (map fst J). fst e \<in> dom (empty_adj h) \<and> snd e \<in> dom (empty_adj h)"
    using assms(1) unfolding couplings_known_def empty_adj_dom .
  from add_edges_known[OF empty_adj_closed this] obtain adj where
    adj: "add_edges (map fst J) (empty_adj h) = Inr adj"
    and da: "dom adj = fst ` set h" and ca: "closed_adj adj"
    unfolding empty_adj_dom by blast
  from assms(3) have "((v, u), b) \<in> set J" by (rule map_of_SomeD)
  then have "(v, u) \<in> set (map fst J)" by force
  from add_edges_neighbours[OF adj this] obtain ns where
    ns: "adj v = Some ns" and u: "u \<in> set ns" by blast
  have c: "coupling J v u = b + a" by (simp add: coupling_def assms(2,3))
  have split: "(\<Sum>w\<leftarrow>ns. coupling J v w * spin_of sp w)
      = coupling J v u * spin_of sp u + (\<Sum>w\<leftarrow>remove1 u ns. coupling J v w * spin_of sp w)"
    for sp using u by (rule sum_list_map_remove1)
  have val: "edJ v = Some (- 2 * (spin_of sp v
              * ((b + a) * spin_of sp u
                 + (\<Sum>w\<leftarrow>remove1 u ns. coupling J v w * spin_of sp w))))"
    if "energy_diff_J_loop J adj sp nodes Map.empty = Inr edJ \<and> v \<in> set nodes"
    for sp nodes edJ
  proof -
    from that have l: "energy_diff_J_loop J adj sp nodes Map.empty = Inr edJ"
      and m: "v \<in> set nodes" by simp_all
    from energy_diff_J_loop_value[OF l] m ns obtain e where
      e: "ediff_loop J sp v ns 0 = Inr e" and dJ: "edJ v = Some (- 2 * e)" by force
    from ediff_loop_value[OF e] split[of sp] c
    have "e = spin_of sp v * ((b + a) * spin_of sp u
               + (\<Sum>w\<leftarrow>remove1 u ns. coupling J v w * spin_of sp w))" by simp
    with dJ show ?thesis by simp
  qed
  from sample_ok[OF assms(4) adj da ca]
  have ok: "\<exists>sp'. sample R greedy_coloring h J clamped schedule g = Inr sp'" .
  have "add_edges (map fst J) (empty_adj h) = Inr adj
      \<and> adj v = Some ns \<and> u \<in> set ns \<and> coupling J v u = b + a
      \<and> (\<forall>sp nodes edJ.
            energy_diff_J_loop J adj sp nodes Map.empty = Inr edJ \<and> v \<in> set nodes \<longrightarrow>
            edJ v = Some (- 2 * (spin_of sp v
              * ((b + a) * spin_of sp u
                 + (\<Sum>w\<leftarrow>remove1 u ns. coupling J v w * spin_of sp w)))))
      \<and> (\<exists>sp'. sample R greedy_coloring h J clamped schedule g = Inr sp')"
    using adj ns u c ok by (intro conjI allI impI) (simp_all add: val)
  then show ?thesis by (intro exI)
qed

theorem both_directions_add_up_witness:
  "couplings_known example_h example_J2
   \<and> map_of example_J2 (0, 1) = Some (1 / 2) \<and> map_of example_J2 (1, 0) = Some (1 / 4)
   \<and> colours_within example_coloring (fst ` set example_h)
   \<and> add_edges (map fst example_J2) (empty_adj example_h) = Inr example_adj2
   \<and> energy_diff_J_loop example_J2 example_adj2 example_spins [1] Map.empty
       = Inr [1 \<mapsto> 3 / 2]
   \<and> (\<exists>adj ns. add_edges (map fst example_J2) (empty_adj example_h) = Inr adj
      \<and> adj 1 = Some ns \<and> 0 \<in> set ns \<and> coupling example_J2 1 0 = 1 / 4 + 1 / 2
      \<and> (\<forall>sp nodes edJ.
            energy_diff_J_loop example_J2 adj sp nodes Map.empty = Inr edJ \<and> 1 \<in> set nodes \<longrightarrow>
            edJ 1 = Some (- 2 * (spin_of sp 1
              * ((1 / 4 + 1 / 2) * spin_of sp 0
                 + (\<Sum>w\<leftarrow>remove1 0 ns. coupling example_J2 1 w * spin_of sp w)))))
      \<and> (\<exists>sp'. sample counter_source example_coloring example_h example_J2 clamped_spins [1] 0
            = Inr sp'))"
proof -
  have k: "couplings_known example_h example_J2"
    by (simp add: couplings_known_def example_h_def example_J2_def)
  have a: "map_of example_J2 (0, 1) = Some (1 / 2)" by (simp add: example_J2_def)
  have b: "map_of example_J2 (1, 0) = Some (1 / 4)" by (simp add: example_J2_def)
  note r = both_directions_add_up[OF k a b example_colours_within,
      of counter_source clamped_spins "[1]" 0]
  from k a b example_colours_within example_adj2_built example_edJ2 r
  show ?thesis by (intro conjI)
qed

end
